theory Spec2Isabelle
  imports Complex_Main "HOL-Library.Word" "HOL-Library.Log_Nat"
begin

unbundle bit_operations_syntax

section \<open>Pixel buffers\<close>

text \<open>
  A \<^verbatim>\<open>Uint8ClampedArray\<close> is a list of bytes. Reading outside the array gives
  \<^verbatim>\<open>undefined\<close> (here \<open>None\<close>); a write outside the array is ignored; a written number
  is clamped to \<open>0..255\<close>, and \<^verbatim>\<open>NaN\<close> (here \<open>None\<close>) is stored as 0.
\<close>

type_synonym buffer = "8 word list"

definition rd :: "buffer \<Rightarrow> int \<Rightarrow> int option" where
  "rd d i = (if 0 \<le> i \<and> i < int (length d) then Some (uint (d ! nat i)) else None)"

definition clamp8 :: "int option \<Rightarrow> 8 word" where
  "clamp8 v = (case v of None \<Rightarrow> 0 | Some n \<Rightarrow> word_of_int (max 0 (min 255 n)))"

definition wr :: "buffer \<Rightarrow> int \<Rightarrow> int option \<Rightarrow> buffer" where
  "wr d i v = (if 0 \<le> i \<and> i < int (length d) then d[nat i := clamp8 v] else d)"

section \<open>The editor state (CanvasEditor.js)\<close>

datatype tool = Brush | Fill | Pan | Eraser

text \<open>
  The fields of \<^verbatim>\<open>CanvasEditor\<close> that the handlers read and write. The canvas and its 2D
  context are the fields \<open>canvas_width\<close>, \<open>canvas_height\<close>, \<open>ctx_data\<close> (the pixels that
  \<^verbatim>\<open>getImageData\<close> returns and \<^verbatim>\<open>putImageData\<close> stores), \<open>ctx_path\<close>,
  \<open>ctx_strokeStyle\<close> and \<open>ctx_lineWidth\<close>. \<open>onUpdate\<close> says whether the callback is
  installed and \<open>updates\<close> counts its calls. JavaScript numbers are modelled as exact reals
  (coordinates, zoom, pan) or integers (pixel coordinates and indices).
\<close>

text \<open>
  The current path of the 2D context: a list of subpaths, each a list of points and a flag
  that says whether \<^verbatim>\<open>closePath\<close> closed it.
\<close>

type_synonym subpath = "(real \<times> real) list \<times> bool"

record editor =
  currentColor :: string
  mode :: tool
  brushSize :: real
  isDrawing :: bool
  isPanning :: bool
  zoom :: real
  pan :: "real \<times> real"
  startPan :: "real \<times> real"
  lineArtData :: "buffer option"
  lineArtWidth :: nat
  lineArtHeight :: nat
  canvas_width :: nat
  canvas_height :: nat
  ctx_data :: buffer
  ctx_path :: "subpath list"
  ctx_strokeStyle :: string
  ctx_lineWidth :: real
  onUpdate :: bool
  updates :: nat

text \<open>A \<^verbatim>\<open>DOMRect\<close> as \<^verbatim>\<open>getBoundingClientRect\<close> returns it.\<close>

record dom_rect =
  rect_left :: real
  rect_top :: real
  rect_width :: real
  rect_height :: real

section \<open>Viewport: fitToScreen and handleWheel\<close>

definition fitToScreen :: "dom_rect \<Rightarrow> editor \<Rightarrow> editor" where
  "fitToScreen wrapperRect ed =
     (let padding = 40;
          availableWidth = rect_width wrapperRect - padding;
          availableHeight = rect_height wrapperRect - padding;
          scaleX = availableWidth / real (lineArtWidth ed);
          scaleY = availableHeight / real (lineArtHeight ed);
          z = min (min scaleX scaleY) (9 / 10)
      in ed\<lparr>zoom := z,
            pan := ((rect_width wrapperRect - real (lineArtWidth ed) * z) / 2,
                    (rect_height wrapperRect - real (lineArtHeight ed) * z) / 2)\<rparr>)"

record wheel_event =
  deltaY :: real
  wheel_clientX :: real
  wheel_clientY :: real

definition handleWheel :: "dom_rect \<Rightarrow> editor \<Rightarrow> wheel_event \<Rightarrow> editor" where
  "handleWheel rect ed e =
     (let delta = - sgn (deltaY e);
          zoomStep = 1 / 10;
          newZoom = max (1 / 10) (min 5 (zoom ed + delta * zoomStep))
      in if newZoom = zoom ed then ed
         else
           let mouseX = wheel_clientX e - rect_left rect;
               mouseY = wheel_clientY e - rect_top rect;
               renderX = (mouseX - fst (pan ed)) / zoom ed;
               renderY = (mouseY - snd (pan ed)) / zoom ed
           in ed\<lparr>zoom := newZoom,
                 pan := (mouseX - renderX * newZoom, mouseY - renderY * newZoom)\<rparr>)"

section \<open>Flood fill (CanvasEditor.js, isLineBoundary and floodFill)\<close>

text \<open>
  \<^verbatim>\<open>parseInt(s, 16)\<close> on a string of 8-bit characters: leading white space is skipped, then
  an optional sign and an optional \<^verbatim>\<open>0x\<close> prefix, then the longest run of hexadecimal digits;
  no digit at all gives \<^verbatim>\<open>NaN\<close> (here \<open>None\<close>). \<open>slice_string s a b\<close> is
  \<^verbatim>\<open>s.slice(a, b)\<close> for \<open>0 \<le> a \<le> b\<close>.
\<close>

definition hexDigit :: "char \<Rightarrow> int option" where
  "hexDigit c =
     (let n = (of_char c :: nat)
      in if 48 \<le> n \<and> n \<le> 57 then Some (int n - 48)
         else if 97 \<le> n \<and> n \<le> 102 then Some (int n - 87)
         else if 65 \<le> n \<and> n \<le> 70 then Some (int n - 55)
         else None)"

definition isWhiteSpace :: "char \<Rightarrow> bool" where
  "isWhiteSpace c = ((of_char c :: nat) \<in> {9, 10, 11, 12, 13, 32, 160})"

fun parseDigits :: "int \<Rightarrow> string \<Rightarrow> int" where
  "parseDigits acc [] = acc"
| "parseDigits acc (c # cs) =
     (case hexDigit c of None \<Rightarrow> acc | Some v \<Rightarrow> parseDigits (16 * acc + v) cs)"

definition parseInt16 :: "string \<Rightarrow> int option" where
  "parseInt16 s =
     (let s1 = dropWhile isWhiteSpace s;
          sign = (case s1 of c # cs \<Rightarrow> if c = CHR ''-'' then - 1 else 1 | [] \<Rightarrow> (1::int));
          s2 = (case s1 of c # cs \<Rightarrow> if c = CHR ''-'' \<or> c = CHR ''+'' then cs else s1 | [] \<Rightarrow> s1);
          s3 = (case s2 of a # b # cs \<Rightarrow>
                   if a = CHR ''0'' \<and> (b = CHR ''x'' \<or> b = CHR ''X'') then cs else s2
                | _ \<Rightarrow> s2)
      in case s3 of [] \<Rightarrow> None
         | c # cs \<Rightarrow> if hexDigit c = None then None else Some (sign * parseDigits 0 s3))"

definition slice_string :: "string \<Rightarrow> nat \<Rightarrow> nat \<Rightarrow> string" where
  "slice_string s a b = take (b - a) (drop a s)"

text \<open>
  \<^verbatim>\<open>isLineBoundary\<close>: no line art loaded means no boundary; a coordinate outside the line
  art is a boundary; otherwise the pixel is a boundary when its red channel is 0.
\<close>

definition isLineBoundary :: "editor \<Rightarrow> real \<Rightarrow> real \<Rightarrow> bool" where
  "isLineBoundary ed x y =
     (case lineArtData ed of
        None \<Rightarrow> False
      | Some lineArt \<Rightarrow>
          (let ix = \<lfloor>x\<rfloor>; iy = \<lfloor>y\<rfloor>
           in if ix < 0 \<or> ix \<ge> int (lineArtWidth ed) \<or> iy < 0 \<or> iy \<ge> int (lineArtHeight ed)
              then True
              else let p = (iy * int (lineArtWidth ed) + ix) * 4
                   in rd lineArt p = Some 0))"

text \<open>
  \<^verbatim>\<open>===\<close> and \<^verbatim>\<open>Math.abs(a - b) <= t\<close> on values that may be \<^verbatim>\<open>undefined\<close> or
  \<^verbatim>\<open>NaN\<close> (both \<open>None\<close>): false as soon as one side is.
\<close>

definition strictEq :: "int option \<Rightarrow> int option \<Rightarrow> bool" where
  "strictEq a b = (case (a, b) of (Some u, Some v) \<Rightarrow> u = v | _ \<Rightarrow> False)"

definition absDiffLe :: "int option \<Rightarrow> int option \<Rightarrow> int \<Rightarrow> bool" where
  "absDiffLe a b t = (case (a, b) of (Some u, Some v) \<Rightarrow> \<bar>u - v\<bar> \<le> t | _ \<Rightarrow> False)"

definition tolerance :: int where
  "tolerance = 32"

type_synonym rgb = "int option \<times> int option \<times> int option"

definition colorMatches :: "buffer \<Rightarrow> rgb \<Rightarrow> int \<Rightarrow> bool" where
  "colorMatches data target p =
     (case target of (targetR, targetG, targetB) \<Rightarrow>
        absDiffLe (rd data p) targetR tolerance \<and>
        absDiffLe (rd data (p + 1)) targetG tolerance \<and>
        absDiffLe (rd data (p + 2)) targetB tolerance)"

record fill_pixel =
  pos :: int
  origR :: "int option"
  origG :: "int option"
  origB :: "int option"

text \<open>
  The \<^verbatim>\<open>while (queue.length > 0)\<close> loop of \<^verbatim>\<open>floodFill\<close>. The queue is first-in
  first-out (\<^verbatim>\<open>shift\<close> takes the head, \<^verbatim>\<open>push\<close> appends). \<^verbatim>\<open>visited\<close> is a
  \<^verbatim>\<open>Uint8Array(width * height)\<close> of flags, modelled as the set of the indices whose flag is 1;
  every index it is read or written at lies inside the array, by the bounds check before.
  The loop terminates: every iteration either marks a new pixel or shortens the queue.
\<close>

lemma pixelIndex_range:
  fixes x y :: int
  assumes "0 \<le> x" "x < int w" "0 \<le> y" "y < int h"
  shows "0 \<le> y * int w + x \<and> y * int w + x < int w * int h"
proof -
  have "y * int w + x < y * int w + int w" using assms by simp
  also have "\<dots> = (y + 1) * int w" by (simp add: algebra_simps)
  also have "\<dots> \<le> int h * int w" using assms by (intro mult_right_mono) auto
  finally show ?thesis using assms by (simp add: mult.commute)
qed

lemma visit_decreases:
  fixes x y :: int
  assumes "\<not> (x < 0 \<or> int w \<le> x \<or> y < 0 \<or> int h \<le> y)" "y * int w + x \<notin> visited"
  shows "card ({0 ..< int w * int h} - insert (y * int w + x) visited)
       < card ({0 ..< int w * int h} - visited)"
proof -
  have "y * int w + x \<in> {0 ..< int w * int h}"
    using pixelIndex_range [of x w y h] assms by auto
  then have mem: "y * int w + x \<in> {0 ..< int w * int h} - visited"
    using assms(2) by simp
  have fin: "finite ({0 ..< int w * int h} - visited)" by simp
  have eq: "{0 ..< int w * int h} - insert (y * int w + x) visited
      = ({0 ..< int w * int h} - visited) - {y * int w + x}" by blast
  show ?thesis unfolding eq using card_Diff1_less [OF fin mem] .
qed

function fillLoop ::
  "editor \<Rightarrow> buffer \<Rightarrow> rgb \<Rightarrow> (int \<times> int) list \<Rightarrow> int set \<Rightarrow> fill_pixel list \<Rightarrow> fill_pixel list"
where
  "fillLoop ed data target [] visited pixelsToFill = pixelsToFill"
| "fillLoop ed data target ((x, y) # queue) visited pixelsToFill =
     (if x < 0 \<or> x \<ge> int (canvas_width ed) \<or> y < 0 \<or> y \<ge> int (canvas_height ed)
      then fillLoop ed data target queue visited pixelsToFill
      else if y * int (canvas_width ed) + x \<in> visited
      then fillLoop ed data target queue visited pixelsToFill
      else if isLineBoundary ed (real_of_int x) (real_of_int y)
      then fillLoop ed data target queue (insert (y * int (canvas_width ed) + x) visited) pixelsToFill
      else if \<not> colorMatches data target ((y * int (canvas_width ed) + x) * 4)
      then fillLoop ed data target queue (insert (y * int (canvas_width ed) + x) visited) pixelsToFill
      else fillLoop ed data target
             (queue @ [(x + 1, y), (x - 1, y), (x, y + 1), (x, y - 1)])
             (insert (y * int (canvas_width ed) + x) visited)
             (pixelsToFill @
               [\<lparr>pos = (y * int (canvas_width ed) + x) * 4,
                 origR = rd data ((y * int (canvas_width ed) + x) * 4),
                 origG = rd data ((y * int (canvas_width ed) + x) * 4 + 1),
                 origB = rd data ((y * int (canvas_width ed) + x) * 4 + 2)\<rparr>]))"
  by pat_completeness auto

termination fillLoop
proof (relation "measures
    [\<lambda>(ed, data, target, queue, visited, pixelsToFill).
        card ({0 ..< int (canvas_width ed) * int (canvas_height ed)} - visited),
     \<lambda>(ed, data, target, queue, visited, pixelsToFill). length queue]", goal_cases)
  case 1
  show ?case by simp
next
  case 2
  show ?case by simp
next
  case 3
  show ?case by simp
next
  case (4 ed data target x y queue visited pixelsToFill)
  then show ?case using visit_decreases [of x "canvas_width ed" y "canvas_height ed" visited]
    by simp
next
  case (5 ed data target x y queue visited pixelsToFill)
  then show ?case using visit_decreases [of x "canvas_width ed" y "canvas_height ed" visited]
    by simp
next
  case (6 ed data target x y queue visited pixelsToFill)
  then show ?case using visit_decreases [of x "canvas_width ed" y "canvas_height ed" visited]
    by simp
qed

text \<open>
  \<^verbatim>\<open>floodFill(startX, startY, fillColor, isUnfill)\<close>. \<^verbatim>\<open>getImageData\<close> returns a copy of
  the canvas pixels and \<^verbatim>\<open>putImageData\<close> stores it back; the sound played for a non-empty
  fill (the only use of \<^verbatim>\<open>isUnfill\<close>) is not part of the state.
\<close>

definition floodFill :: "editor \<Rightarrow> real \<Rightarrow> real \<Rightarrow> string \<Rightarrow> bool \<Rightarrow> editor" where
  "floodFill ed startX0 startY0 fillColor isUnfill =
     (let width = int (canvas_width ed);
          startX = round startX0;
          startY = round startY0
      in if isLineBoundary ed (real_of_int startX) (real_of_int startY) then ed
         else
           let data = ctx_data ed;
               startPos = (startY * width + startX) * 4;
               targetR = rd data startPos;
               targetG = rd data (startPos + 1);
               targetB = rd data (startPos + 2);
               targetA = rd data (startPos + 3);
               fillR = parseInt16 (slice_string fillColor 1 3);
               fillG = parseInt16 (slice_string fillColor 3 5);
               fillB = parseInt16 (slice_string fillColor 5 7)
           in if strictEq targetR fillR \<and> strictEq targetG fillG \<and> strictEq targetB fillB
                 \<and> strictEq targetA (Some 255)
              then ed
              else
                let pixelsToFill =
                      fillLoop ed data (targetR, targetG, targetB) [(startX, startY)] {} []
                in if pixelsToFill = [] then ed
                   else ed\<lparr>ctx_data :=
                          foldl (\<lambda>d pixel.
                                   wr (wr (wr (wr d (pos pixel) fillR) (pos pixel + 1) fillG)
                                         (pos pixel + 2) fillB) (pos pixel + 3) (Some 255))
                            data pixelsToFill\<rparr>)"

section \<open>Pointer handlers (CanvasEditor.js, handleStart, handleMove, handleEnd)\<close>

record pointer_event =
  clientX :: real
  clientY :: real
  button :: int
  pointerType :: string
  isPrimary :: bool

text \<open>
  \<^verbatim>\<open>getCoords\<close>: the event position relative to the canvas, scaled from the size of the
  canvas on screen (its bounding rectangle, supplied by the page layout) to its pixel size.
  When a side of the rectangle is 0 the scale \<^verbatim>\<open>canvas.width / rect.width\<close> is
  \<^verbatim>\<open>Infinity\<close> or \<^verbatim>\<open>NaN\<close>, and so is the coordinate: a coordinate that is not a finite
  number is \<open>None\<close>.
\<close>

definition getCoords :: "dom_rect \<Rightarrow> editor \<Rightarrow> pointer_event \<Rightarrow> real option \<times> real option" where
  "getCoords rect ed e =
     (let scaleX = (if rect_width rect = 0 then None
                    else Some (real (canvas_width ed) / rect_width rect));
          scaleY = (if rect_height rect = 0 then None
                    else Some (real (canvas_height ed) / rect_height rect))
      in (map_option (\<lambda>s. (clientX e - rect_left rect) * s) scaleX,
          map_option (\<lambda>s. (clientY e - rect_top rect) * s) scaleY))"

text \<open>
  The path operations of the 2D context that the handlers call. \<^verbatim>\<open>moveTo\<close> and
  \<^verbatim>\<open>lineTo\<close> return without effect when a coordinate is infinite or \<^verbatim>\<open>NaN\<close>.
\<close>

definition moveTo :: "subpath list \<Rightarrow> real option \<times> real option \<Rightarrow> subpath list" where
  "moveTo path c =
     (case c of (Some x, Some y) \<Rightarrow> path @ [([(x, y)], False)] | _ \<Rightarrow> path)"

definition lineTo :: "subpath list \<Rightarrow> real option \<times> real option \<Rightarrow> subpath list" where
  "lineTo path c =
     (case c of
        (Some x, Some y) \<Rightarrow>
          (if path = [] then [([(x, y)], False)]
           else butlast path @ [(fst (last path) @ [(x, y)], snd (last path))])
      | _ \<Rightarrow> path)"

definition closePath :: "subpath list \<Rightarrow> subpath list" where
  "closePath path =
     (if path = [] then []
      else butlast path @ [(fst (last path), True), ([hd (fst (last path))], False)])"

text \<open>
  \<^verbatim>\<open>ctx.stroke()\<close> is the browser's rasterizer, not code of the editor: the handlers take
  it as a parameter, a function of the current path, line width, stroke style, canvas size
  and pixels that returns the new pixels.
\<close>

type_synonym rasterizer =
  "subpath list \<Rightarrow> real \<Rightarrow> string \<Rightarrow> nat \<Rightarrow> nat \<Rightarrow> buffer \<Rightarrow> buffer"

text \<open>
  \<^verbatim>\<open>floodFill\<close> called with the coordinates of \<^verbatim>\<open>getCoords\<close>. With a coordinate that
  is not a finite number the call changes nothing: \<^verbatim>\<open>Math.round\<close> keeps the value; at
  \<^verbatim>\<open>Infinity\<close> or \<^verbatim>\<open>-Infinity\<close> the bounds test of \<^verbatim>\<open>isLineBoundary\<close> or, with no
  line art, the bounds test of the loop stops the fill; at \<^verbatim>\<open>NaN\<close> every comparison is
  false, the pixel offset is \<^verbatim>\<open>NaN\<close>, the reads at it are \<^verbatim>\<open>undefined\<close> and
  \<^verbatim>\<open>colorMatches\<close> fails on the seed, so that no pixel is collected.
\<close>

definition floodFillAt ::
  "editor \<Rightarrow> real option \<times> real option \<Rightarrow> string \<Rightarrow> bool \<Rightarrow> editor" where
  "floodFillAt ed c fillColor isUnfill =
     (case c of (Some x, Some y) \<Rightarrow> floodFill ed x y fillColor isUnfill | _ \<Rightarrow> ed)"

definition handleStart :: "dom_rect \<Rightarrow> editor \<Rightarrow> pointer_event \<Rightarrow> editor" where
  "handleStart canvasRect ed e =
     (if pointerType e = ''touch'' \<and> \<not> isPrimary e then ed
      else if mode ed = Pan \<or> button e = 1
      then ed\<lparr>isPanning := True,
              startPan := (clientX e - fst (pan ed), clientY e - snd (pan ed))\<rparr>
      else
        let c = getCoords canvasRect ed e;
            ed1 = ed\<lparr>isDrawing := True\<rparr>
        in if mode ed = Fill
           then
             let isRightClick = (button e = 2)
             in (floodFillAt ed1 c
                   (if isRightClick then ''#FFFFFF'' else currentColor ed) isRightClick)
                \<lparr>isDrawing := False\<rparr>
           else if button e \<noteq> 2
           then ed1\<lparr>ctx_path := moveTo [] c,
                    ctx_strokeStyle := (if mode ed = Eraser then ''#FFFFFF'' else currentColor ed),
                    ctx_lineWidth := brushSize ed\<rparr>
           else ed1)"

definition handleMove :: "rasterizer \<Rightarrow> dom_rect \<Rightarrow> editor \<Rightarrow> pointer_event \<Rightarrow> editor" where
  "handleMove stroke canvasRect ed e =
     (if isPanning ed
      then ed\<lparr>pan := (clientX e - fst (startPan ed), clientY e - snd (startPan ed))\<rparr>
      else if \<not> isDrawing ed \<or> mode ed = Fill then ed
      else
        let c = getCoords canvasRect ed e;
            path = lineTo (ctx_path ed) c
        in ed\<lparr>ctx_path := path,
              ctx_data := stroke path (ctx_lineWidth ed) (ctx_strokeStyle ed)
                            (canvas_width ed) (canvas_height ed) (ctx_data ed)\<rparr>)"

definition handleEnd :: "editor \<Rightarrow> editor" where
  "handleEnd ed =
     (let ed1 = ed\<lparr>isPanning := False, isDrawing := False, ctx_path := closePath (ctx_path ed)\<rparr>
      in if onUpdate ed then ed1\<lparr>updates := updates ed1 + 1\<rparr> else ed1)"

section \<open>Line-art processing\<close>

subsection \<open>Double-precision arithmetic\<close>

text \<open>
  A JavaScript number is an IEEE 754 binary64 value, and every \<^verbatim>\<open>*\<close> and \<^verbatim>\<open>+\<close> rounds its exact
  result to the nearest such value, ties to the even significand. A finite value is kept
  here as a pair \<open>(m, e)\<close> of integers that stands for \<open>m * 2 ^ e\<close>; \<open>round53\<close> rounds a pair to
  53 significant bits. The exponent is unbounded: the brightness of a pixel is computed
  from bytes, so every value that occurs is 0 or lies between \<open>0.114\<close> and \<open>255\<close>, far from
  overflow and from the subnormal range.
\<close>

type_synonym double = "int \<times> int"

definition dval :: "double \<Rightarrow> real" where
  "dval d = (if 0 \<le> snd d then of_int (fst d) * 2 ^ nat (snd d)
             else of_int (fst d) / 2 ^ nat (- snd d))"

fun bitLength :: "nat \<Rightarrow> nat" where
  "bitLength n = (if n = 0 then 0 else Suc (bitLength (n div 2)))"

declare bitLength.simps [simp del]

definition round53 :: "double \<Rightarrow> double" where
  "round53 d =
     (let n = nat \<bar>fst d\<bar>; l = bitLength n
      in if l \<le> 53 then d
         else
           let s = l - 53;
               q = n div 2 ^ s;
               r = n mod 2 ^ s;
               h = 2 ^ (s - 1);
               q' = (if h < r \<or> (r = h \<and> odd q) then q + 1 else q)
           in (sgn (fst d) * int q', snd d + int s))"

definition dmul :: "double \<Rightarrow> double \<Rightarrow> double" where
  "dmul a b = round53 (fst a * fst b, snd a + snd b)"

definition dadd :: "double \<Rightarrow> double \<Rightarrow> double" where
  "dadd a b =
     (let e = min (snd a) (snd b)
      in round53 (fst a * 2 ^ nat (snd a - e) + fst b * 2 ^ nat (snd b - e), e))"

text \<open>
  The literals \<^verbatim>\<open>0.299\<close>, \<^verbatim>\<open>0.587\<close> and \<^verbatim>\<open>0.114\<close> denote the doubles nearest to them:
  \<open>5386305154335113 / 2 ^ 54\<close>, \<open>5287225962532962 / 2 ^ 53\<close> and \<open>8214565720323785 / 2 ^ 56\<close>
  (a 53-bit significand, and at most half a unit in the last place away from the decimal:
  lemmas \<open>literal_significands\<close>, \<open>c299_value\<close>, \<open>c587_value\<close>, \<open>c114_value\<close>).
\<close>

definition c299 :: double where "c299 = (5386305154335113, - 54)"
definition c587 :: double where "c587 = (5287225962532962, - 53)"
definition c114 :: double where "c114 = (8214565720323785, - 56)"

text \<open>
  \<^verbatim>\<open>0.299 * data[i] + 0.587 * data[i + 1] + 0.114 * data[i + 2]\<close>: three products, added from
  the left. A byte read outside the array is \<^verbatim>\<open>undefined\<close> and makes the result \<^verbatim>\<open>NaN\<close> (\<open>None\<close>).
\<close>

definition brightness :: "int option \<Rightarrow> int option \<Rightarrow> int option \<Rightarrow> double option" where
  "brightness r g b =
     (case (r, g, b) of
        (Some r', Some g', Some b') \<Rightarrow>
          Some (dadd (dadd (dmul c299 (r', 0)) (dmul c587 (g', 0))) (dmul c114 (b', 0)))
      | _ \<Rightarrow> None)"

subsection \<open>Binarization\<close>

text \<open>
  One iteration of the first loop of \<^verbatim>\<open>createHighQualityLineArt\<close>, for the pixel that starts
  at byte \<open>i\<close>: \<^verbatim>\<open>binary = brightness < threshold ? 0 : 255\<close> (false for \<^verbatim>\<open>NaN\<close>), written to the
  three colour bytes, and 255 to the alpha byte. The loop runs over \<open>i = 0, 4, 8, \<dots>\<close> below
  the length of the array.
\<close>

definition binarizePixel :: "real \<Rightarrow> buffer \<Rightarrow> int \<Rightarrow> buffer" where
  "binarizePixel threshold data i =
     (let binary = (case brightness (rd data i) (rd data (i + 1)) (rd data (i + 2)) of
                      Some v \<Rightarrow> if dval v < threshold then 0 else 255
                    | None \<Rightarrow> 255)
      in wr (wr (wr (wr data i (Some binary)) (i + 1) (Some binary)) (i + 2) (Some binary))
           (i + 3) (Some 255))"

definition binarize :: "real \<Rightarrow> buffer \<Rightarrow> buffer" where
  "binarize threshold data =
     foldl (binarizePixel threshold) data (map (\<lambda>k. int k * 4) [0 ..< (length data + 3) div 4])"

subsection \<open>Dilation\<close>

text \<open>
  The kernel of \<^verbatim>\<open>applyDilation\<close> and of the second step of \<^verbatim>\<open>createHighQualityLineArt\<close>: the
  offsets \<open>(dx, dy)\<close> between \<open>- radius\<close> and \<open>radius\<close> with \<open>dx * dx + dy * dy \<le> radius * radius\<close>,
  \<open>dy\<close> in the outer loop. The radius is an integer (the defaults are 1 and 2, and the editor
  passes 0).
\<close>

definition kernelOffsets :: "int \<Rightarrow> (int \<times> int) list" where
  "kernelOffsets radius =
     concat (map (\<lambda>dy. concat (map (\<lambda>dx. if dx * dx + dy * dy \<le> radius * radius then [(dx, dy)] else [])
                                   [- radius .. radius]))
               [- radius .. radius])"

text \<open>
  The innermost loop, for a pixel \<open>p\<close> that is black in \<open>data\<close>: every neighbour inside the
  image is made black in \<open>output\<close>. \<^verbatim>\<open>applyDilation\<close> also writes the alpha byte (\<open>setAlpha\<close>);
  \<^verbatim>\<open>createHighQualityLineArt\<close> does not.
\<close>

definition spreadBlack ::
  "bool \<Rightarrow> nat \<Rightarrow> nat \<Rightarrow> (int \<times> int) list \<Rightarrow> buffer \<Rightarrow> int \<times> int \<Rightarrow> buffer" where
  "spreadBlack setAlpha width height offsets output p =
     foldl (\<lambda>out k.
              let nx = fst p + fst k; ny = snd p + snd k
              in if nx \<ge> 0 \<and> nx < int width \<and> ny \<ge> 0 \<and> ny < int height
                 then
                   let nIdx = (ny * int width + nx) * 4;
                       out3 = wr (wr (wr out nIdx (Some 0)) (nIdx + 1) (Some 0)) (nIdx + 2) (Some 0)
                   in if setAlpha then wr out3 (nIdx + 3) (Some 255) else out3
                 else out)
       output offsets"

text \<open>The last loop: \<^verbatim>\<open>data[i] = output[i]\<close> for every index of \<open>data\<close>.\<close>

definition copyBack :: "buffer \<Rightarrow> buffer \<Rightarrow> buffer" where
  "copyBack data output = foldl (\<lambda>d i. wr d (int i) (rd output (int i))) data [0 ..< length data]"

text \<open>The order of the nested \<^verbatim>\<open>for y\<close>, \<^verbatim>\<open>for x\<close> iteration: the pixels \<open>(x, y)\<close> row by row.\<close>

definition rowMajor :: "nat \<Rightarrow> nat \<Rightarrow> (int \<times> int) list" where
  "rowMajor width height =
     concat (map (\<lambda>y. map (\<lambda>x. (int x, int y)) [0 ..< width]) [0 ..< height])"

text \<open>
  The dilation, with the list of the pixels that the outer iteration visits as a parameter:
  \<open>output\<close> starts as a copy of \<open>data\<close>, the test \<^verbatim>\<open>data[idx] === 0\<close> reads \<open>data\<close>, the writes go
  to \<open>output\<close>, and \<open>output\<close> is copied back at the end. The code visits \<open>rowMajor width height\<close>.
\<close>

definition dilateScan ::
  "bool \<Rightarrow> (int \<times> int) list \<Rightarrow> buffer \<Rightarrow> nat \<Rightarrow> nat \<Rightarrow> int \<Rightarrow> buffer" where
  "dilateScan setAlpha scan data width height radius =
     (let offsets = kernelOffsets radius;
          output = foldl (\<lambda>out p.
                     if rd data ((snd p * int width + fst p) * 4) = Some 0
                     then spreadBlack setAlpha width height offsets out p
                     else out)
                   data scan
      in copyBack data output)"

definition applyDilation :: "buffer \<Rightarrow> nat \<Rightarrow> nat \<Rightarrow> int \<Rightarrow> buffer" where
  "applyDilation data width height radius =
     dilateScan True (rowMajor width height) data width height radius"

text \<open>
  \<^verbatim>\<open>createHighQualityLineArt\<close> on the pixels that \<^verbatim>\<open>getImageData\<close> returns for the drawn image:
  the result is the \<^verbatim>\<open>boundaryData\<close> of the returned object.
\<close>

definition createHighQualityLineArt :: "buffer \<Rightarrow> nat \<Rightarrow> nat \<Rightarrow> real \<Rightarrow> int \<Rightarrow> buffer" where
  "createHighQualityLineArt pixels width height threshold dilationRadius =
     (let data = binarize threshold pixels
      in if dilationRadius > 0
         then dilateScan False (rowMajor width height) data width height dilationRadius
         else data)"

section \<open>Definitions used to state the properties\<close>

subsection \<open>Viewport\<close>

text \<open>
  The content-space point under a screen point, as \<^verbatim>\<open>handleWheel\<close> computes it in
  \<^verbatim>\<open>renderX\<close>, \<^verbatim>\<open>renderY\<close> (the inverse of \<open>screen = content * zoom + pan\<close>).
\<close>

definition contentPoint :: "editor \<Rightarrow> real \<times> real \<Rightarrow> real \<times> real" where
  "contentPoint ed s = ((fst s - fst (pan ed)) / zoom ed, (snd s - snd (pan ed)) / zoom ed)"

definition clampedZoom :: "editor \<Rightarrow> wheel_event \<Rightarrow> real" where
  "clampedZoom ed e = max (1 / 10) (min 5 (zoom ed - sgn (deltaY e) * (1 / 10)))"

definition wheelTest :: editor where
  "wheelTest = \<lparr>currentColor = ''#000000'', mode = Fill, brushSize = 10, isDrawing = False,
     isPanning = False, zoom = 1 / 2, pan = (10, 20), startPan = (0, 0), lineArtData = None,
     lineArtWidth = 2000, lineArtHeight = 2000, canvas_width = 2000, canvas_height = 2000,
     ctx_data = [], ctx_path = [], ctx_strokeStyle = ''#000000'', ctx_lineWidth = 1,
     onUpdate = True, updates = 0\<rparr>"

subsection \<open>Flood fill\<close>

text \<open>
  Canvas coordinates, the index of a pixel, the four neighbours in the order the loop
  pushes them, and 4-connected paths: \<open>connected4 ok seed p\<close> holds when \<open>p\<close> is reached from
  \<open>seed\<close> by steps to a neighbour, every pixel on the way (the seed included) satisfying
  \<open>ok\<close>.
\<close>

definition inCanvas :: "editor \<Rightarrow> int \<times> int \<Rightarrow> bool" where
  "inCanvas ed p = (0 \<le> fst p \<and> fst p < int (canvas_width ed) \<and> 0 \<le> snd p \<and> snd p < int (canvas_height ed))"

definition pixelIndex :: "editor \<Rightarrow> int \<times> int \<Rightarrow> int" where
  "pixelIndex ed p = snd p * int (canvas_width ed) + fst p"

definition boundaryAt :: "editor \<Rightarrow> int \<times> int \<Rightarrow> bool" where
  "boundaryAt ed p = isLineBoundary ed (real_of_int (fst p)) (real_of_int (snd p))"

definition neighbours :: "int \<times> int \<Rightarrow> (int \<times> int) list" where
  "neighbours p = [(fst p + 1, snd p), (fst p - 1, snd p), (fst p, snd p + 1), (fst p, snd p - 1)]"

inductive connected4 :: "(int \<times> int \<Rightarrow> bool) \<Rightarrow> int \<times> int \<Rightarrow> int \<times> int \<Rightarrow> bool"
  for ok :: "int \<times> int \<Rightarrow> bool" and seed :: "int \<times> int"
where
  seed: "ok seed \<Longrightarrow> connected4 ok seed seed"
| step: "connected4 ok seed p \<Longrightarrow> q \<in> set (neighbours p) \<Longrightarrow> ok q \<Longrightarrow> connected4 ok seed q"

definition openPixel :: "editor \<Rightarrow> int \<times> int \<Rightarrow> bool" where
  "openPixel ed p = (inCanvas ed p \<and> \<not> boundaryAt ed p)"

text \<open>
  The matching rule in the words of the specification: each of the red, green and blue
  channels of the pixel at byte offset \<open>p\<close> differs from the seed colour's channel by at most
  32; the alpha byte at \<open>p + 3\<close> is not read.
\<close>

definition withinTolerance :: "buffer \<Rightarrow> rgb \<Rightarrow> int \<Rightarrow> bool" where
  "withinTolerance data seedColor p =
     (case seedColor of (sr, sg, sb) \<Rightarrow>
        (\<exists>r g b r0 g0 b0.
           rd data p = Some r \<and> rd data (p + 1) = Some g \<and> rd data (p + 2) = Some b \<and>
           sr = Some r0 \<and> sg = Some g0 \<and> sb = Some b0 \<and>
           \<bar>r - r0\<bar> \<le> 32 \<and> \<bar>g - g0\<bar> \<le> 32 \<and> \<bar>b - b0\<bar> \<le> 32))"

definition fillable :: "editor \<Rightarrow> buffer \<Rightarrow> rgb \<Rightarrow> int \<times> int \<Rightarrow> bool" where
  "fillable ed data target p =
     (openPixel ed p \<and> colorMatches data target (pixelIndex ed p * 4))"

definition mkPixel :: "editor \<Rightarrow> buffer \<Rightarrow> int \<times> int \<Rightarrow> fill_pixel" where
  "mkPixel ed data p =
     \<lparr>pos = pixelIndex ed p * 4,
      origR = rd data (pixelIndex ed p * 4),
      origG = rd data (pixelIndex ed p * 4 + 1),
      origB = rd data (pixelIndex ed p * 4 + 2)\<rparr>"

definition targetAt :: "buffer \<Rightarrow> int \<Rightarrow> rgb" where
  "targetAt data p = (rd data p, rd data (p + 1), rd data (p + 2))"

definition traversal :: "editor \<Rightarrow> int \<times> int \<Rightarrow> fill_pixel list" where
  "traversal ed seed =
     fillLoop ed (ctx_data ed) (targetAt (ctx_data ed) (pixelIndex ed seed * 4)) [seed] {} []"

definition alreadyFilled :: "buffer \<Rightarrow> int \<Rightarrow> string \<Rightarrow> bool" where
  "alreadyFilled data p c =
     (strictEq (rd data p) (parseInt16 (slice_string c 1 3)) \<and>
      strictEq (rd data (p + 1)) (parseInt16 (slice_string c 3 5)) \<and>
      strictEq (rd data (p + 2)) (parseInt16 (slice_string c 5 7)) \<and>
      strictEq (rd data (p + 3)) (Some 255))"

definition putPixel :: "buffer \<Rightarrow> int \<Rightarrow> int option \<Rightarrow> int option \<Rightarrow> int option \<Rightarrow> buffer" where
  "putPixel d p fillR fillG fillB =
     wr (wr (wr (wr d p fillR) (p + 1) fillG) (p + 2) fillB) (p + 3) (Some 255)"

definition channel :: "int option \<Rightarrow> int option \<Rightarrow> int option \<Rightarrow> int \<Rightarrow> int" where
  "channel fillR fillG fillB k =
     uint (clamp8 (if k = 0 then fillR else if k = 1 then fillG else if k = 2 then fillB else Some 255))"

definition hexColor :: "string \<Rightarrow> bool" where
  "hexColor c = (length c = 7 \<and> hd c = CHR ''#'' \<and> list_all (\<lambda>ch. hexDigit ch \<noteq> None) (tl c))"

text \<open>
  A pixel that the traversal may take, in the words of the specification: inside the canvas,
  not a boundary pixel, and within the tolerance of the seed colour.
\<close>

definition matching :: "editor \<Rightarrow> buffer \<Rightarrow> rgb \<Rightarrow> int \<times> int \<Rightarrow> bool" where
  "matching ed data seedColor p =
     (inCanvas ed p \<and> \<not> boundaryAt ed p \<and> withinTolerance data seedColor (pixelIndex ed p * 4))"

text \<open>Loop invariants of \<open>fillLoop\<close>.\<close>

definition preserved ::
  "editor \<Rightarrow> buffer \<Rightarrow> rgb \<Rightarrow> ((int \<times> int) list \<Rightarrow> int set \<Rightarrow> fill_pixel list \<Rightarrow> bool) \<Rightarrow> bool"
where
  "preserved ed data t I \<longleftrightarrow>
     (\<forall>c q V P. I (c # q) V P \<longrightarrow>
        (\<not> inCanvas ed c \<longrightarrow> I q V P) \<and>
        (inCanvas ed c \<longrightarrow> pixelIndex ed c \<in> V \<longrightarrow> I q V P) \<and>
        (inCanvas ed c \<longrightarrow> pixelIndex ed c \<notin> V \<longrightarrow> \<not> fillable ed data t c \<longrightarrow>
           I q (insert (pixelIndex ed c) V) P) \<and>
        (inCanvas ed c \<longrightarrow> pixelIndex ed c \<notin> V \<longrightarrow> fillable ed data t c \<longrightarrow>
           I (q @ neighbours c) (insert (pixelIndex ed c) V) (P @ [mkPixel ed data c])))"

definition invSound ::
  "editor \<Rightarrow> buffer \<Rightarrow> rgb \<Rightarrow> int \<times> int \<Rightarrow> (int \<times> int) list \<Rightarrow> int set \<Rightarrow> fill_pixel list \<Rightarrow> bool"
where
  "invSound ed data t seed q V P \<longleftrightarrow>
     (\<forall>px \<in> set P. \<exists>p. px = mkPixel ed data p \<and> connected4 (fillable ed data t) seed p
                       \<and> pixelIndex ed p \<in> V) \<and>
     (\<forall>c \<in> set q. c = seed \<or> (\<exists>p. connected4 (fillable ed data t) seed p \<and> c \<in> set (neighbours p))) \<and>
     distinct (map pos P)"

definition invComplete ::
  "editor \<Rightarrow> buffer \<Rightarrow> rgb \<Rightarrow> int \<times> int \<Rightarrow> (int \<times> int) list \<Rightarrow> int set \<Rightarrow> fill_pixel list \<Rightarrow> bool"
where
  "invComplete ed data t seed q V P \<longleftrightarrow>
     (\<forall>p. fillable ed data t p \<and> pixelIndex ed p \<in> V \<longrightarrow> mkPixel ed data p \<in> set P) \<and>
     (\<forall>p n. fillable ed data t p \<and> pixelIndex ed p \<in> V \<and> n \<in> set (neighbours p) \<longrightarrow>
           n \<in> set q \<or> \<not> inCanvas ed n \<or> pixelIndex ed n \<in> V) \<and>
     (seed \<in> set q \<or> \<not> inCanvas ed seed \<or> pixelIndex ed seed \<in> V)"

text \<open>A 3 x 1 canvas whose third pixel is a boundary.\<close>

definition fillTest :: editor where
  "fillTest = \<lparr>currentColor = ''#e63946'', mode = Fill, brushSize = 10, isDrawing = False,
     isPanning = False, zoom = 1, pan = (0, 0), startPan = (0, 0),
     lineArtData = Some [255, 255, 255, 255, 255, 255, 255, 255, 0, 0, 0, 255],
     lineArtWidth = 3, lineArtHeight = 1, canvas_width = 3, canvas_height = 1,
     ctx_data = [255, 255, 255, 255, 255, 255, 255, 255, 255, 255, 255, 255],
     ctx_path = [], ctx_strokeStyle = ''#000000'', ctx_lineWidth = 1,
     onUpdate = True, updates = 0\<rparr>"

subsection \<open>Pointer handlers\<close>

text \<open>
  An example of a rasterizer, used to run the handlers on concrete strokes: it paints,
  with the stroke style and alpha 255, every pixel whose centre lies within half the line
  width of a vertex of the path (the round caps and joins of the editor's context cover at
  least these pixels; no anti-aliasing).
\<close>

definition discStroke :: rasterizer where
  "discStroke path lineWidth strokeStyle w h data =
     foldl (\<lambda>d k.
              if list_ex (\<lambda>v. (real (k mod w) + 1 / 2 - fst v)\<^sup>2 + (real (k div w) + 1 / 2 - snd v)\<^sup>2
                                \<le> (lineWidth / 2)\<^sup>2)
                   (concat (map fst path))
              then putPixel d (int k * 4) (parseInt16 (slice_string strokeStyle 1 3))
                     (parseInt16 (slice_string strokeStyle 3 5))
                     (parseInt16 (slice_string strokeStyle 5 7))
              else d)
       data [0 ..< w * h]"

text \<open>
  A 2 x 1 canvas in brush mode whose first pixel is a boundary; the same in pan mode; the
  canvas rectangle at zoom 1 and pan 0; and a mouse event.
\<close>

definition strokeTest :: editor where
  "strokeTest = \<lparr>currentColor = ''#e63946'', mode = Brush, brushSize = 10, isDrawing = False,
     isPanning = False, zoom = 1, pan = (0, 0), startPan = (0, 0),
     lineArtData = Some [0, 0, 0, 255, 255, 255, 255, 255],
     lineArtWidth = 2, lineArtHeight = 1, canvas_width = 2, canvas_height = 1,
     ctx_data = [255, 255, 255, 255, 255, 255, 255, 255],
     ctx_path = [], ctx_strokeStyle = ''#000000'', ctx_lineWidth = 1,
     onUpdate = True, updates = 0\<rparr>"

definition panTest :: editor where
  "panTest = strokeTest\<lparr>mode := Pan\<rparr>"

definition testRect :: dom_rect where
  "testRect = \<lparr>rect_left = 0, rect_top = 0, rect_width = 2, rect_height = 1\<rparr>"

definition press :: "real \<Rightarrow> real \<Rightarrow> int \<Rightarrow> pointer_event" where
  "press x y b = \<lparr>clientX = x, clientY = y, button = b, pointerType = ''mouse'', isPrimary = True\<rparr>"

text \<open>An interaction's moves, each with the canvas rectangle at that moment.\<close>

definition drag :: "rasterizer \<Rightarrow> editor \<Rightarrow> (dom_rect \<times> pointer_event) list \<Rightarrow> editor" where
  "drag stroke ed moves = foldl (\<lambda>s m. handleMove stroke (fst m) s (snd m)) ed moves"

subsection \<open>Line-art processing\<close>

text \<open>
  The luminance of the specification, in exact arithmetic; the pixels of an image of the
  given size; the four bytes of a pixel; a pure black and a pure white pixel; a binary image.
\<close>

definition luminance :: "int \<Rightarrow> int \<Rightarrow> int \<Rightarrow> real" where
  "luminance r g b = (299 * of_int r + 587 * of_int g + 114 * of_int b) / 1000"

definition inImage :: "nat \<Rightarrow> nat \<Rightarrow> int \<times> int \<Rightarrow> bool" where
  "inImage width height q = (0 \<le> fst q \<and> fst q < int width \<and> 0 \<le> snd q \<and> snd q < int height)"

definition pixelBytes :: "buffer \<Rightarrow> nat \<Rightarrow> int \<times> int \<Rightarrow> int option list" where
  "pixelBytes d width q =
     (let i = (snd q * int width + fst q) * 4 in [rd d i, rd d (i + 1), rd d (i + 2), rd d (i + 3)])"

definition blackPixel :: "int option list" where
  "blackPixel = [Some 0, Some 0, Some 0, Some 255]"

definition whitePixel :: "int option list" where
  "whitePixel = [Some 255, Some 255, Some 255, Some 255]"

definition binaryImage :: "buffer \<Rightarrow> nat \<Rightarrow> nat \<Rightarrow> bool" where
  "binaryImage data width height \<longleftrightarrow>
     (\<forall>q. inImage width height q \<longrightarrow>
        pixelBytes data width q = blackPixel \<or> pixelBytes data width q = whitePixel)"

text \<open>
  A pixel is black when its first byte is 0 (the test of the dilation); \<open>nearBlack\<close> is the
  specification's condition: some pixel of the image at an offset within the disk is black.
\<close>

definition blackAt :: "buffer \<Rightarrow> nat \<Rightarrow> int \<times> int \<Rightarrow> bool" where
  "blackAt data width q = (rd data ((snd q * int width + fst q) * 4) = Some 0)"

definition nearBlack :: "buffer \<Rightarrow> nat \<Rightarrow> nat \<Rightarrow> int \<Rightarrow> int \<times> int \<Rightarrow> bool" where
  "nearBlack data width height radius q =
     (\<exists>dx dy. dx * dx + dy * dy \<le> radius * radius
        \<and> inImage width height (fst q + dx, snd q + dy)
        \<and> blackAt data width (fst q + dx, snd q + dy))"

text \<open>
  For the proofs: the value that one iteration of the binarization writes, and the
  dilation as a list of byte writes.
\<close>

definition binaryValue :: "real \<Rightarrow> buffer \<Rightarrow> int \<Rightarrow> int" where
  "binaryValue threshold data i =
     (case brightness (rd data i) (rd data (i + 1)) (rd data (i + 2)) of
        Some v \<Rightarrow> if dval v < threshold then 0 else 255
      | None \<Rightarrow> 255)"

definition writes :: "buffer \<Rightarrow> (int \<times> int option) list \<Rightarrow> buffer" where
  "writes d ws = foldl (\<lambda>d w. wr d (fst w) (snd w)) d ws"

definition pixelWrites :: "bool \<Rightarrow> nat \<Rightarrow> int \<times> int \<Rightarrow> (int \<times> int option) list" where
  "pixelWrites setAlpha width q =
     (let nIdx = (snd q * int width + fst q) * 4
      in [(nIdx, Some 0), (nIdx + 1, Some 0), (nIdx + 2, Some 0)]
         @ (if setAlpha then [(nIdx + 3, Some 255)] else []))"

definition spreadWrites ::
  "bool \<Rightarrow> nat \<Rightarrow> nat \<Rightarrow> (int \<times> int) list \<Rightarrow> int \<times> int \<Rightarrow> (int \<times> int option) list" where
  "spreadWrites setAlpha width height offsets p =
     concat (map (\<lambda>k. if inImage width height (fst p + fst k, snd p + snd k)
                       then pixelWrites setAlpha width (fst p + fst k, snd p + snd k) else [])
               offsets)"

definition dilateWrites ::
  "bool \<Rightarrow> (int \<times> int) list \<Rightarrow> buffer \<Rightarrow> nat \<Rightarrow> nat \<Rightarrow> int \<Rightarrow> (int \<times> int option) list" where
  "dilateWrites setAlpha scan data width height radius =
     concat (map (\<lambda>p. if blackAt data width p
                       then spreadWrites setAlpha width height (kernelOffsets radius) p else [])
               scan)"

definition dilatedByte :: "int \<Rightarrow> int option" where
  "dilatedByte j = (if j mod 4 = 3 then Some 255 else Some 0)"

text \<open>
  Two pixels of luminance 150 and 220; and a 2 x 2 image whose first pixel is black.
\<close>

definition scenarioB :: buffer where
  "scenarioB = [150, 150, 150, 255, 220, 220, 220, 255]"

definition dilationTest :: buffer where
  "dilationTest = [0, 0, 0, 255, 255, 255, 255, 255, 255, 255, 255, 255, 255, 255, 255, 255]"

section \<open>Lemmas about the flood fill\<close>

lemma fillLoop_out:
  "\<not> inCanvas ed c \<Longrightarrow> fillLoop ed data t (c # q) V P = fillLoop ed data t q V P"
  by (cases c) (auto simp add: inCanvas_def)

lemma fillLoop_seen:
  "inCanvas ed c \<Longrightarrow> pixelIndex ed c \<in> V \<Longrightarrow>
   fillLoop ed data t (c # q) V P = fillLoop ed data t q V P"
  by (cases c) (auto simp add: inCanvas_def pixelIndex_def)

lemma fillLoop_blocked:
  "inCanvas ed c \<Longrightarrow> pixelIndex ed c \<notin> V \<Longrightarrow> \<not> fillable ed data t c \<Longrightarrow>
   fillLoop ed data t (c # q) V P = fillLoop ed data t q (insert (pixelIndex ed c) V) P"
  by (cases c) (auto simp add: inCanvas_def pixelIndex_def fillable_def openPixel_def boundaryAt_def)

lemma fillLoop_take:
  "inCanvas ed c \<Longrightarrow> pixelIndex ed c \<notin> V \<Longrightarrow> fillable ed data t c \<Longrightarrow>
   fillLoop ed data t (c # q) V P
     = fillLoop ed data t (q @ neighbours c) (insert (pixelIndex ed c) V) (P @ [mkPixel ed data c])"
  by (cases c)
     (auto simp add: inCanvas_def pixelIndex_def fillable_def openPixel_def boundaryAt_def
        neighbours_def mkPixel_def)

declare fillLoop.simps [simp del]

lemma preservedD:
  assumes "preserved ed data t I" "I (c # q) V P"
  shows "\<not> inCanvas ed c \<Longrightarrow> I q V P"
    and "inCanvas ed c \<Longrightarrow> pixelIndex ed c \<in> V \<Longrightarrow> I q V P"
    and "inCanvas ed c \<Longrightarrow> pixelIndex ed c \<notin> V \<Longrightarrow> \<not> fillable ed data t c \<Longrightarrow>
           I q (insert (pixelIndex ed c) V) P"
    and "inCanvas ed c \<Longrightarrow> pixelIndex ed c \<notin> V \<Longrightarrow> fillable ed data t c \<Longrightarrow>
           I (q @ neighbours c) (insert (pixelIndex ed c) V) (P @ [mkPixel ed data c])"
proof -
  have "(\<not> inCanvas ed c \<longrightarrow> I q V P) \<and>
        (inCanvas ed c \<longrightarrow> pixelIndex ed c \<in> V \<longrightarrow> I q V P) \<and>
        (inCanvas ed c \<longrightarrow> pixelIndex ed c \<notin> V \<longrightarrow> \<not> fillable ed data t c \<longrightarrow>
           I q (insert (pixelIndex ed c) V) P) \<and>
        (inCanvas ed c \<longrightarrow> pixelIndex ed c \<notin> V \<longrightarrow> fillable ed data t c \<longrightarrow>
           I (q @ neighbours c) (insert (pixelIndex ed c) V) (P @ [mkPixel ed data c]))"
    using assms(1) [unfolded preserved_def, rule_format, OF assms(2)] .
  then show "\<not> inCanvas ed c \<Longrightarrow> I q V P"
    and "inCanvas ed c \<Longrightarrow> pixelIndex ed c \<in> V \<Longrightarrow> I q V P"
    and "inCanvas ed c \<Longrightarrow> pixelIndex ed c \<notin> V \<Longrightarrow> \<not> fillable ed data t c \<Longrightarrow>
           I q (insert (pixelIndex ed c) V) P"
    and "inCanvas ed c \<Longrightarrow> pixelIndex ed c \<notin> V \<Longrightarrow> fillable ed data t c \<Longrightarrow>
           I (q @ neighbours c) (insert (pixelIndex ed c) V) (P @ [mkPixel ed data c])"
    by simp_all
qed

lemma fillLoop_rule:
  "preserved ed data t I \<Longrightarrow> I q V P \<Longrightarrow> \<exists>V'. I [] V' (fillLoop ed data t q V P)"
proof (induction ed data t q V P rule: fillLoop.induct)
  case (1 ed data target visited pixelsToFill)
  have "I [] visited (fillLoop ed data target [] visited pixelsToFill)"
    using "1.prems"(2) by (simp add: fillLoop.simps)
  then show ?case by (rule exI)
next
  case (2 ed data target x y queue visited pixelsToFill)
  let ?c = "(x, y)"
  note pres = "2.prems"(1)
  note I0 = "2.prems"(2)
  consider (out) "\<not> inCanvas ed ?c"
    | (seen) "inCanvas ed ?c" "pixelIndex ed ?c \<in> visited"
    | (blocked) "inCanvas ed ?c" "pixelIndex ed ?c \<notin> visited" "\<not> fillable ed data target ?c"
    | (take) "inCanvas ed ?c" "pixelIndex ed ?c \<notin> visited" "fillable ed data target ?c"
    by blast
  then show ?case
  proof cases
    case out
    have I1: "I queue visited pixelsToFill"
      using preservedD(1) [OF pres I0 out] .
    have a: "x < 0 \<or> int (canvas_width ed) \<le> x \<or> y < 0 \<or> int (canvas_height ed) \<le> y"
      using out by (auto simp add: inCanvas_def)
    show ?thesis using "2.IH"(1) [OF a pres I1] fillLoop_out [OF out] by simp
  next
    case seen
    have I1: "I queue visited pixelsToFill"
      using preservedD(2) [OF pres I0 seen] .
    have a: "\<not> (x < 0 \<or> int (canvas_width ed) \<le> x \<or> y < 0 \<or> int (canvas_height ed) \<le> y)"
      using seen by (auto simp add: inCanvas_def)
    have b: "y * int (canvas_width ed) + x \<in> visited"
      using seen by (simp add: pixelIndex_def)
    show ?thesis using "2.IH"(2) [OF a b pres I1] fillLoop_seen [OF seen] by simp
  next
    case blocked
    have I1: "I queue (insert (y * int (canvas_width ed) + x) visited) pixelsToFill"
      using preservedD(3) [OF pres I0 blocked] by (simp add: pixelIndex_def)
    have a: "\<not> (x < 0 \<or> int (canvas_width ed) \<le> x \<or> y < 0 \<or> int (canvas_height ed) \<le> y)"
      using blocked by (auto simp add: inCanvas_def)
    have b: "y * int (canvas_width ed) + x \<notin> visited"
      using blocked by (simp add: pixelIndex_def)
    have "\<exists>V'. I [] V' (fillLoop ed data target queue (insert (y * int (canvas_width ed) + x) visited) pixelsToFill)"
    proof (cases "isLineBoundary ed (real_of_int x) (real_of_int y)")
      case True
      show ?thesis using "2.IH"(3) [OF a b True pres I1] .
    next
      case False
      then have nm: "\<not> colorMatches data target ((y * int (canvas_width ed) + x) * 4)"
        using blocked by (simp add: fillable_def openPixel_def boundaryAt_def pixelIndex_def)
      show ?thesis using "2.IH"(4) [OF a b False nm pres I1] .
    qed
    then show ?thesis using fillLoop_blocked [OF blocked] by (simp add: pixelIndex_def)
  next
    case take
    have I1: "I (queue @ [(x + 1, y), (x - 1, y), (x, y + 1), (x, y - 1)])
                (insert (y * int (canvas_width ed) + x) visited)
                (pixelsToFill @
                  [\<lparr>pos = (y * int (canvas_width ed) + x) * 4,
                    origR = rd data ((y * int (canvas_width ed) + x) * 4),
                    origG = rd data ((y * int (canvas_width ed) + x) * 4 + 1),
                    origB = rd data ((y * int (canvas_width ed) + x) * 4 + 2)\<rparr>])"
    proof -
      have "I (queue @ neighbours ?c) (insert (pixelIndex ed ?c) visited)
                (pixelsToFill @ [mkPixel ed data ?c])"
        using preservedD(4) [OF pres I0 take] .
      then show ?thesis by (simp add: pixelIndex_def neighbours_def mkPixel_def)
    qed
    have a: "\<not> (x < 0 \<or> int (canvas_width ed) \<le> x \<or> y < 0 \<or> int (canvas_height ed) \<le> y)"
      using take by (auto simp add: inCanvas_def)
    have b: "y * int (canvas_width ed) + x \<notin> visited"
      using take by (simp add: pixelIndex_def)
    have c: "\<not> isLineBoundary ed (real_of_int x) (real_of_int y)"
      using take by (simp add: fillable_def openPixel_def boundaryAt_def)
    have d: "\<not> \<not> colorMatches data target ((y * int (canvas_width ed) + x) * 4)"
      using take by (simp add: fillable_def pixelIndex_def)
    show ?thesis using "2.IH"(5) [OF a b c d pres I1] fillLoop_take [OF take]
      by (simp add: pixelIndex_def neighbours_def mkPixel_def)
  qed
qed

lemma pixelIndex_inj:
  assumes "inCanvas ed p" "inCanvas ed p'" "pixelIndex ed p = pixelIndex ed p'"
  shows "p = p'"
proof -
  obtain x y x' y' where p: "p = (x, y)" "p' = (x', y')" by (cases p, cases p') auto
  let ?w = "int (canvas_width ed)"
  have b: "0 \<le> x" "x < ?w" "0 \<le> x'" "x' < ?w" using assms(1,2) p by (auto simp add: inCanvas_def)
  have e: "y * ?w + x = y' * ?w + x'" using assms(3) p by (simp add: pixelIndex_def)
  have "(y * ?w + x) mod ?w = x" "(y' * ?w + x') mod ?w = x'" using b by simp_all
  then have x: "x = x'" using e by simp
  have "?w \<noteq> 0" using b by auto
  then have "y = y'" using e x by simp
  then show ?thesis using x p by simp
qed

lemma connected4_ok: "connected4 ok seed p \<Longrightarrow> ok p"
  by (induction rule: connected4.induct) auto

lemma connected4_mono:
  assumes "connected4 ok seed p" "\<And>q. ok q \<Longrightarrow> ok' q"
  shows "connected4 ok' seed p"
  using assms(1)
proof (induction rule: connected4.induct)
  case seed
  then show ?case using assms(2) connected4.seed by blast
next
  case (step p q)
  then show ?case using assms(2) connected4.step by blast
qed

lemma connected4_seed_ok: "connected4 ok seed p \<Longrightarrow> ok seed"
  by (induction rule: connected4.induct) auto

lemma pos_mkPixel [simp]: "pos (mkPixel ed data p) = pixelIndex ed p * 4"
  by (simp add: mkPixel_def)

lemma invSound_take:
  assumes I: "invSound ed data t seed (c # q) V P"
    and nv: "pixelIndex ed c \<notin> V" and f: "fillable ed data t c"
  shows "invSound ed data t seed (q @ neighbours c) (insert (pixelIndex ed c) V) (P @ [mkPixel ed data c])"
proof -
  have "c = seed \<or> (\<exists>p. connected4 (fillable ed data t) seed p \<and> c \<in> set (neighbours p))"
    using I by (simp add: invSound_def)
  then have rc: "connected4 (fillable ed data t) seed c"
    using f connected4.seed connected4.step by blast
  have new: "pixelIndex ed c * 4 \<notin> pos ` set P"
  proof
    assume "pixelIndex ed c * 4 \<in> pos ` set P"
    then obtain px where px: "px \<in> set P" "pos px = pixelIndex ed c * 4" by auto
    then obtain p where "px = mkPixel ed data p" "pixelIndex ed p \<in> V"
      using I unfolding invSound_def by blast
    then show False using px nv by simp
  qed
  have a: "\<forall>px \<in> set (P @ [mkPixel ed data c]). \<exists>p. px = mkPixel ed data p
        \<and> connected4 (fillable ed data t) seed p \<and> pixelIndex ed p \<in> insert (pixelIndex ed c) V"
  proof (intro ballI)
    fix px assume "px \<in> set (P @ [mkPixel ed data c])"
    then consider "px \<in> set P" | "px = mkPixel ed data c" by auto
    then show "\<exists>p. px = mkPixel ed data p
        \<and> connected4 (fillable ed data t) seed p \<and> pixelIndex ed p \<in> insert (pixelIndex ed c) V"
    proof cases
      case 1
      then obtain p where "px = mkPixel ed data p" "connected4 (fillable ed data t) seed p"
          "pixelIndex ed p \<in> V"
        using I unfolding invSound_def by blast
      then show ?thesis by blast
    next
      case 2
      then show ?thesis using rc by blast
    qed
  qed
  have b: "\<forall>c' \<in> set (q @ neighbours c). c' = seed
        \<or> (\<exists>p. connected4 (fillable ed data t) seed p \<and> c' \<in> set (neighbours p))"
  proof (intro ballI)
    fix c' assume "c' \<in> set (q @ neighbours c)"
    then consider "c' \<in> set q" | "c' \<in> set (neighbours c)" by auto
    then show "c' = seed
        \<or> (\<exists>p. connected4 (fillable ed data t) seed p \<and> c' \<in> set (neighbours p))"
    proof cases
      case 1
      then show ?thesis using I unfolding invSound_def by simp
    next
      case 2
      then show ?thesis using rc by blast
    qed
  qed
  have d: "distinct (map pos (P @ [mkPixel ed data c]))"
    using I new unfolding invSound_def by simp
  show ?thesis unfolding invSound_def using a b d by blast
qed

lemma invSound_preserved: "preserved ed data t (invSound ed data t seed)"
  unfolding preserved_def
proof (intro allI impI conjI)
  fix c q V P assume "invSound ed data t seed (c # q) V P"
  then show "invSound ed data t seed q V P" by (simp add: invSound_def)
next
  fix c q V P assume "invSound ed data t seed (c # q) V P"
  then show "invSound ed data t seed q V P" by (simp add: invSound_def)
next
  fix c q V P assume "invSound ed data t seed (c # q) V P"
  then show "invSound ed data t seed q (insert (pixelIndex ed c) V) P"
    unfolding invSound_def by fastforce
next
  fix c q V P
  assume "invSound ed data t seed (c # q) V P" "pixelIndex ed c \<notin> V" "fillable ed data t c"
  then show "invSound ed data t seed (q @ neighbours c) (insert (pixelIndex ed c) V) (P @ [mkPixel ed data c])"
    by (rule invSound_take)
qed

lemma fillable_inCanvas: "fillable ed data t p \<Longrightarrow> inCanvas ed p"
  by (simp add: fillable_def openPixel_def)

lemma fillable_open: "fillable ed data t p \<Longrightarrow> openPixel ed p"
  by (simp add: fillable_def)

lemma invCompleteD:
  assumes "invComplete ed data t seed q V P"
  shows "fillable ed data t p \<Longrightarrow> pixelIndex ed p \<in> V \<Longrightarrow> mkPixel ed data p \<in> set P"
    and "fillable ed data t p \<Longrightarrow> pixelIndex ed p \<in> V \<Longrightarrow> n \<in> set (neighbours p) \<Longrightarrow>
           n \<in> set q \<or> \<not> inCanvas ed n \<or> pixelIndex ed n \<in> V"
    and "seed \<in> set q \<or> \<not> inCanvas ed seed \<or> pixelIndex ed seed \<in> V"
  using assms unfolding invComplete_def by blast+

lemma invCompleteI:
  assumes "\<And>p. fillable ed data t p \<Longrightarrow> pixelIndex ed p \<in> V \<Longrightarrow> mkPixel ed data p \<in> set P"
    and "\<And>p n. fillable ed data t p \<Longrightarrow> pixelIndex ed p \<in> V \<Longrightarrow> n \<in> set (neighbours p) \<Longrightarrow>
           n \<in> set q \<or> \<not> inCanvas ed n \<or> pixelIndex ed n \<in> V"
    and "seed \<in> set q \<or> \<not> inCanvas ed seed \<or> pixelIndex ed seed \<in> V"
  shows "invComplete ed data t seed q V P"
  unfolding invComplete_def using assms by blast

lemma invComplete_drop:
  assumes I: "invComplete ed data t seed (c # q) V P"
    and o: "\<not> inCanvas ed c \<or> pixelIndex ed c \<in> V"
  shows "invComplete ed data t seed q V P"
proof (rule invCompleteI)
  fix p assume "fillable ed data t p" "pixelIndex ed p \<in> V"
  then show "mkPixel ed data p \<in> set P" using invCompleteD(1) [OF I] by blast
next
  fix p n assume "fillable ed data t p" "pixelIndex ed p \<in> V" "n \<in> set (neighbours p)"
  then have "n \<in> set (c # q) \<or> \<not> inCanvas ed n \<or> pixelIndex ed n \<in> V"
    using invCompleteD(2) [OF I] by blast
  then show "n \<in> set q \<or> \<not> inCanvas ed n \<or> pixelIndex ed n \<in> V" using o by auto
next
  show "seed \<in> set q \<or> \<not> inCanvas ed seed \<or> pixelIndex ed seed \<in> V"
    using invCompleteD(3) [OF I] o by auto
qed

lemma invComplete_blocked:
  assumes I: "invComplete ed data t seed (c # q) V P" and ic: "inCanvas ed c"
    and nf: "\<not> fillable ed data t c"
  shows "invComplete ed data t seed q (insert (pixelIndex ed c) V) P"
proof (rule invCompleteI)
  fix p assume p: "fillable ed data t p" "pixelIndex ed p \<in> insert (pixelIndex ed c) V"
  have "pixelIndex ed p \<noteq> pixelIndex ed c"
    using pixelIndex_inj [OF fillable_inCanvas ic] p nf by blast
  then show "mkPixel ed data p \<in> set P" using invCompleteD(1) [OF I] p by blast
next
  fix p n assume p: "fillable ed data t p" "pixelIndex ed p \<in> insert (pixelIndex ed c) V"
    "n \<in> set (neighbours p)"
  have "pixelIndex ed p \<noteq> pixelIndex ed c"
    using pixelIndex_inj [OF fillable_inCanvas ic] p nf by blast
  then have "n \<in> set (c # q) \<or> \<not> inCanvas ed n \<or> pixelIndex ed n \<in> V"
    using invCompleteD(2) [OF I] p by blast
  then show "n \<in> set q \<or> \<not> inCanvas ed n \<or> pixelIndex ed n \<in> insert (pixelIndex ed c) V"
    by auto
next
  show "seed \<in> set q \<or> \<not> inCanvas ed seed \<or> pixelIndex ed seed \<in> insert (pixelIndex ed c) V"
    using invCompleteD(3) [OF I] by auto
qed

lemma invComplete_take:
  assumes I: "invComplete ed data t seed (c # q) V P" and ic: "inCanvas ed c"
  shows "invComplete ed data t seed (q @ neighbours c) (insert (pixelIndex ed c) V)
           (P @ [mkPixel ed data c])"
proof (rule invCompleteI)
  fix p assume p: "fillable ed data t p" "pixelIndex ed p \<in> insert (pixelIndex ed c) V"
  show "mkPixel ed data p \<in> set (P @ [mkPixel ed data c])"
  proof (cases "pixelIndex ed p = pixelIndex ed c")
    case True
    then have "p = c" using pixelIndex_inj [OF fillable_inCanvas ic] p by blast
    then show ?thesis by simp
  next
    case False
    then have "mkPixel ed data p \<in> set P" using invCompleteD(1) [OF I] p by blast
    then show ?thesis by simp
  qed
next
  fix p n assume p: "fillable ed data t p" "pixelIndex ed p \<in> insert (pixelIndex ed c) V"
    "n \<in> set (neighbours p)"
  show "n \<in> set (q @ neighbours c) \<or> \<not> inCanvas ed n
      \<or> pixelIndex ed n \<in> insert (pixelIndex ed c) V"
  proof (cases "pixelIndex ed p = pixelIndex ed c")
    case True
    then have "p = c" using pixelIndex_inj [OF fillable_inCanvas ic] p by blast
    then show ?thesis using p by simp
  next
    case False
    then have "n \<in> set (c # q) \<or> \<not> inCanvas ed n \<or> pixelIndex ed n \<in> V"
      using invCompleteD(2) [OF I] p by blast
    then show ?thesis by auto
  qed
next
  show "seed \<in> set (q @ neighbours c) \<or> \<not> inCanvas ed seed
         \<or> pixelIndex ed seed \<in> insert (pixelIndex ed c) V"
    using invCompleteD(3) [OF I] by auto
qed

lemma invComplete_preserved: "preserved ed data t (invComplete ed data t seed)"
  unfolding preserved_def
proof (intro allI impI conjI)
  fix c q V P assume a: "invComplete ed data t seed (c # q) V P" "\<not> inCanvas ed c"
  show "invComplete ed data t seed q V P"
    using invComplete_drop [OF a(1)] a(2) by simp
next
  fix c q V P assume a: "invComplete ed data t seed (c # q) V P" "pixelIndex ed c \<in> V"
  show "invComplete ed data t seed q V P"
    using invComplete_drop [OF a(1)] a(2) by simp
next
  fix c q V P
  assume "invComplete ed data t seed (c # q) V P" "inCanvas ed c" "\<not> fillable ed data t c"
  then show "invComplete ed data t seed q (insert (pixelIndex ed c) V) P"
    by (rule invComplete_blocked)
next
  fix c q V P assume "invComplete ed data t seed (c # q) V P" "inCanvas ed c"
  then show "invComplete ed data t seed (q @ neighbours c) (insert (pixelIndex ed c) V)
           (P @ [mkPixel ed data c])"
    by (rule invComplete_take)
qed

lemma invSound_init: "invSound ed data t seed [seed] {} []"
  by (simp add: invSound_def)

lemma invComplete_init: "invComplete ed data t seed [seed] {} []"
  by (simp add: invComplete_def)

lemma invComplete_final:
  assumes I: "invComplete ed data t seed [] V P"
    and r: "connected4 (fillable ed data t) seed p"
  shows "mkPixel ed data p \<in> set P \<and> pixelIndex ed p \<in> V"
  using r
proof (induction rule: connected4.induct)
  case seed
  then have "pixelIndex ed seed \<in> V"
    using invCompleteD(3) [OF I] fillable_inCanvas by auto
  then show ?case using invCompleteD(1) [OF I] seed by blast
next
  case (step p q)
  then have "pixelIndex ed q \<in> V"
    using invCompleteD(2) [OF I, of p q] fillable_inCanvas connected4_ok [of "fillable ed data t" seed p]
    by auto
  then show ?case using invCompleteD(1) [OF I] step by blast
qed

lemma fillLoop_set:
  "set (fillLoop ed data t [seed] {} [])
     = mkPixel ed data ` {p. connected4 (fillable ed data t) seed p}"
proof -
  obtain V1 where s: "invSound ed data t seed [] V1 (fillLoop ed data t [seed] {} [])"
    using fillLoop_rule [OF invSound_preserved invSound_init] by blast
  obtain V2 where c: "invComplete ed data t seed [] V2 (fillLoop ed data t [seed] {} [])"
    using fillLoop_rule [OF invComplete_preserved invComplete_init] by blast
  show ?thesis
  proof (intro set_eqI iffI)
    fix px assume "px \<in> set (fillLoop ed data t [seed] {} [])"
    then show "px \<in> mkPixel ed data ` {p. connected4 (fillable ed data t) seed p}"
      using s unfolding invSound_def by blast
  next
    fix px assume "px \<in> mkPixel ed data ` {p. connected4 (fillable ed data t) seed p}"
    then show "px \<in> set (fillLoop ed data t [seed] {} [])"
      using invComplete_final [OF c] by blast
  qed
qed

lemma fillLoop_distinct: "distinct (map pos (fillLoop ed data t [seed] {} []))"
proof -
  obtain V1 where s: "invSound ed data t seed [] V1 (fillLoop ed data t [seed] {} [])"
    using fillLoop_rule [OF invSound_preserved invSound_init] by blast
  then show ?thesis by (simp add: invSound_def)
qed

lemma length_wr [simp]: "length (wr d i v) = length d"
  by (simp add: wr_def)

lemma rd_wr:
  "rd (wr d i v) j
     = (if j = i \<and> 0 \<le> i \<and> i < int (length d) then Some (uint (clamp8 v)) else rd d j)"
  by (auto simp add: rd_def wr_def nth_list_update)

lemma uint_clamp8: "uint (clamp8 v) = (case v of None \<Rightarrow> 0 | Some n \<Rightarrow> max 0 (min 255 n))"
proof (cases v)
  case None
  then show ?thesis by (simp add: clamp8_def)
next
  case (Some n)
  have "0 \<le> max 0 (min 255 n)" "max 0 (min 255 n) < 2 ^ 8" by auto
  then have "uint (word_of_int (max 0 (min 255 n)) :: 8 word) = max 0 (min 255 n)"
    by (simp add: uint_word_of_int take_bit_int_eq_self)
  then show ?thesis using Some by (simp add: clamp8_def)
qed

lemma length_putPixel [simp]: "length (putPixel d p r g b) = length d"
  by (simp add: putPixel_def)

lemma rd_putPixel:
  "rd (putPixel d p r g b) j
     = (if p \<le> j \<and> j \<le> p + 3 \<and> 0 \<le> j \<and> j < int (length d) then Some (channel r g b (j - p))
        else rd d j)"
proof -
  consider "j = p" | "j = p + 1" | "j = p + 2" | "j = p + 3" | "j < p \<or> p + 3 < j"
    by linarith
  then show ?thesis
    by cases (auto simp add: putPixel_def rd_wr channel_def)
qed

lemma aligned_cover:
  fixes j p :: int
  assumes "p mod 4 = 0"
  shows "(p \<le> j \<and> j \<le> p + 3) \<longleftrightarrow> j - j mod 4 = p"
  using assms by presburger

lemma length_paint [simp]:
  "length (foldl (\<lambda>d pixel. putPixel d (pos pixel) r g b) d ps) = length d"
  by (induction ps arbitrary: d) simp_all

lemma rd_paint:
  assumes "\<forall>px \<in> set ps. pos px mod 4 = 0"
  shows "rd (foldl (\<lambda>d pixel. putPixel d (pos pixel) r g b) d ps) j
       = (if 0 \<le> j \<and> j < int (length d) \<and> j - j mod 4 \<in> pos ` set ps
          then Some (channel r g b (j mod 4)) else rd d j)"
  using assms
proof (induction ps arbitrary: d)
  case Nil
  then show ?case by simp
next
  case (Cons px ps)
  have al: "pos px mod 4 = 0" using Cons.prems by simp
  have rest: "\<forall>px \<in> set ps. pos px mod 4 = 0" using Cons.prems by simp
  have c: "(pos px \<le> j \<and> j \<le> pos px + 3) \<longleftrightarrow> j - j mod 4 = pos px"
    using aligned_cover [OF al] .
  have m: "channel r g b (j - pos px) = channel r g b (j mod 4)" if "j - j mod 4 = pos px"
  proof -
    have "j - pos px = j mod 4" using that by linarith
    then show ?thesis by simp
  qed
  show ?case
    using Cons.IH [OF rest, of "putPixel d (pos px) r g b"] c m
    by (auto simp add: rd_putPixel)
qed

lemma floodFill_unfold:
  "floodFill ed sx sy c u =
     (if boundaryAt ed (round sx, round sy)
         \<or> alreadyFilled (ctx_data ed) (pixelIndex ed (round sx, round sy) * 4) c
         \<or> traversal ed (round sx, round sy) = []
      then ed
      else ed\<lparr>ctx_data :=
             foldl (\<lambda>d pixel. putPixel d (pos pixel) (parseInt16 (slice_string c 1 3))
                        (parseInt16 (slice_string c 3 5)) (parseInt16 (slice_string c 5 7)))
               (ctx_data ed) (traversal ed (round sx, round sy))\<rparr>)"
  by (simp add: floodFill_def Let_def boundaryAt_def alreadyFilled_def traversal_def targetAt_def
      pixelIndex_def putPixel_def)

lemma traversal_set:
  "set (traversal ed seed)
     = mkPixel ed (ctx_data ed) `
         {p. connected4 (fillable ed (ctx_data ed) (targetAt (ctx_data ed) (pixelIndex ed seed * 4))) seed p}"
  unfolding traversal_def by (rule fillLoop_set)

lemma traversal_aligned: "\<forall>px \<in> set (traversal ed seed). pos px mod 4 = 0"
  unfolding traversal_set by auto

lemma traversal_pos:
  "pos ` set (traversal ed seed)
     = (\<lambda>p. pixelIndex ed p * 4) `
         {p. connected4 (fillable ed (ctx_data ed) (targetAt (ctx_data ed) (pixelIndex ed seed * 4))) seed p}"
  unfolding traversal_set by (simp add: image_image)

lemma byte_pixel:
  fixes j k :: int
  assumes "j - j mod 4 = k * 4"
  shows "j div 4 = k"
  using assms by presburger

lemma floodFill_changed:
  assumes "rd (ctx_data (floodFill ed sx sy c u)) j \<noteq> rd (ctx_data ed) j"
  shows "\<exists>p. j div 4 = pixelIndex ed p
          \<and> connected4 (fillable ed (ctx_data ed)
                (targetAt (ctx_data ed) (pixelIndex ed (round sx, round sy) * 4))) (round sx, round sy) p"
proof -
  let ?seed = "(round sx, round sy)"
  let ?ps = "traversal ed ?seed"
  have "j - j mod 4 \<in> pos ` set ?ps"
  proof (rule ccontr)
    assume n: "j - j mod 4 \<notin> pos ` set ?ps"
    have "rd (ctx_data (floodFill ed sx sy c u)) j = rd (ctx_data ed) j"
      using n rd_paint [OF traversal_aligned [of ed ?seed]] by (simp add: floodFill_unfold)
    then show False using assms by simp
  qed
  then obtain p where p: "j - j mod 4 = pixelIndex ed p * 4"
    "connected4 (fillable ed (ctx_data ed) (targetAt (ctx_data ed) (pixelIndex ed ?seed * 4))) ?seed p"
    unfolding traversal_pos by auto
  then show ?thesis using byte_pixel [OF p(1)] by blast
qed

lemma hexDigit_range: "hexDigit a = Some x \<Longrightarrow> 0 \<le> x \<and> x \<le> 15"
  by (auto simp add: hexDigit_def Let_def split: if_splits)

lemma hexDigit_special:
  "hexDigit CHR ''-'' = None" "hexDigit CHR ''+'' = None" "hexDigit CHR ''x'' = None"
  "hexDigit CHR ''X'' = None"
  by (simp_all add: hexDigit_def)

lemma hexDigit_white: "isWhiteSpace a \<Longrightarrow> hexDigit a = None"
proof -
  assume "isWhiteSpace a"
  then have "(of_char a :: nat) \<in> {9, 10, 11, 12, 13, 32, 160}" by (simp add: isWhiteSpace_def)
  then have "(of_char a :: nat) < 48 \<or> (102 < (of_char a :: nat))" by auto
  then show ?thesis by (auto simp add: hexDigit_def Let_def)
qed

lemma hexDigit_plain:
  assumes "hexDigit a = Some x"
  shows "\<not> isWhiteSpace a" "a \<noteq> CHR ''-''" "a \<noteq> CHR ''+''" "a \<noteq> CHR ''x''" "a \<noteq> CHR ''X''"
proof -
  show "\<not> isWhiteSpace a" using assms hexDigit_white by fastforce
  show "a \<noteq> CHR ''-''" using assms hexDigit_special(1) by fastforce
  show "a \<noteq> CHR ''+''" using assms hexDigit_special(2) by fastforce
  show "a \<noteq> CHR ''x''" using assms hexDigit_special(3) by fastforce
  show "a \<noteq> CHR ''X''" using assms hexDigit_special(4) by fastforce
qed

lemma parseInt16_pair:
  assumes a: "hexDigit a = Some x" and b: "hexDigit b = Some y"
  shows "parseInt16 [a, b] = Some (16 * x + y)"
  using hexDigit_plain [OF a] hexDigit_plain [OF b] a b
  by (simp add: parseInt16_def)

lemma list7:
  "length c = 7 \<Longrightarrow> \<exists>a0 a1 a2 a3 a4 a5 a6. c = [a0, a1, a2, a3, a4, a5, a6]"
  by (auto simp add: eval_nat_numeral length_Suc_conv)

lemma hexColor_parse:
  assumes "hexColor c"
  shows "\<exists>r g b. parseInt16 (slice_string c 1 3) = Some r \<and> parseInt16 (slice_string c 3 5) = Some g
           \<and> parseInt16 (slice_string c 5 7) = Some b
           \<and> 0 \<le> r \<and> r \<le> 255 \<and> 0 \<le> g \<and> g \<le> 255 \<and> 0 \<le> b \<and> b \<le> 255"
proof -
  have "length c = 7" using assms by (simp add: hexColor_def)
  then obtain a0 a1 a2 a3 a4 a5 a6 where c: "c = [a0, a1, a2, a3, a4, a5, a6]"
    using list7 by blast
  have "list_all (\<lambda>ch. hexDigit ch \<noteq> None) [a1, a2, a3, a4, a5, a6]"
    using assms c by (simp add: hexColor_def)
  then have "hexDigit a1 \<noteq> None" "hexDigit a2 \<noteq> None" "hexDigit a3 \<noteq> None"
    "hexDigit a4 \<noteq> None" "hexDigit a5 \<noteq> None" "hexDigit a6 \<noteq> None"
    by simp_all
  then obtain x1 x2 x3 x4 x5 x6 where
    h: "hexDigit a1 = Some x1" "hexDigit a2 = Some x2" "hexDigit a3 = Some x3"
       "hexDigit a4 = Some x4" "hexDigit a5 = Some x5" "hexDigit a6 = Some x6"
    by blast
  have "parseInt16 (slice_string c 1 3) = Some (16 * x1 + x2)"
    "parseInt16 (slice_string c 3 5) = Some (16 * x3 + x4)"
    "parseInt16 (slice_string c 5 7) = Some (16 * x5 + x6)"
    using parseInt16_pair [OF h(1,2)] parseInt16_pair [OF h(3,4)] parseInt16_pair [OF h(5,6)] c
    by (simp_all add: slice_string_def)
  moreover have "0 \<le> 16 * x1 + x2 \<and> 16 * x1 + x2 \<le> 255"
    using hexDigit_range [OF h(1)] hexDigit_range [OF h(2)] by linarith
  moreover have "0 \<le> 16 * x3 + x4 \<and> 16 * x3 + x4 \<le> 255"
    using hexDigit_range [OF h(3)] hexDigit_range [OF h(4)] by linarith
  moreover have "0 \<le> 16 * x5 + x6 \<and> 16 * x5 + x6 \<le> 255"
    using hexDigit_range [OF h(5)] hexDigit_range [OF h(6)] by linarith
  ultimately show ?thesis by blast
qed

lemma fillTest_fill:
  "ctx_data (floodFill fillTest 0 0 ''#e63946'' False)
     = [230, 57, 70, 255, 230, 57, 70, 255, 255, 255, 255, 255]"
  by (simp add: floodFill_def fillTest_def Let_def isLineBoundary_def rd_def wr_def clamp8_def
      parseInt16_def slice_string_def hexDigit_def isWhiteSpace_def strictEq_def colorMatches_def
      absDiffLe_def tolerance_def fillLoop.simps)

lemma isLineBoundary_data [simp]:
  "isLineBoundary (ed\<lparr>ctx_data := d\<rparr>) x y = isLineBoundary ed x y"
  by (simp add: isLineBoundary_def split: option.splits)

lemma colorMatches_spec: "colorMatches data t p = withinTolerance data t p"
  by (cases t) (auto simp add: colorMatches_def withinTolerance_def absDiffLe_def tolerance_def
      split: option.splits)

lemma floodFill_unfill_irrelevant: "floodFill ed sx sy c u' = floodFill ed sx sy c u"
  by (simp add: floodFill_unfold)

lemma seed_in_traversal:
  assumes "traversal ed seed \<noteq> []"
  shows "inCanvas ed seed \<and> pixelIndex ed seed * 4 \<in> pos ` set (traversal ed seed)"
proof -
  let ?ok = "fillable ed (ctx_data ed) (targetAt (ctx_data ed) (pixelIndex ed seed * 4))"
  obtain px where "px \<in> set (traversal ed seed)" using assms by (cases "traversal ed seed") auto
  then obtain p where "connected4 ?ok seed p" unfolding traversal_set by blast
  then have ok: "?ok seed" by (rule connected4_seed_ok)
  then have "connected4 ?ok seed seed" by (rule connected4.seed)
  then have "pixelIndex ed seed * 4 \<in> pos ` set (traversal ed seed)"
    unfolding traversal_pos by blast
  then show ?thesis using fillable_inCanvas [OF ok] by simp
qed

lemma seed_bytes_in_range:
  assumes "inCanvas ed p" "length (ctx_data ed) = 4 * canvas_width ed * canvas_height ed"
  shows "0 \<le> pixelIndex ed p * 4 \<and> pixelIndex ed p * 4 + 3 < int (length (ctx_data ed))"
proof -
  have r: "0 \<le> pixelIndex ed p \<and> pixelIndex ed p < int (canvas_width ed) * int (canvas_height ed)"
    using pixelIndex_range [of "fst p" "canvas_width ed" "snd p" "canvas_height ed"] assms(1)
    by (simp add: inCanvas_def pixelIndex_def)
  have "int (length (ctx_data ed)) = 4 * (int (canvas_width ed) * int (canvas_height ed))"
    using assms(2) by simp
  then show ?thesis using r by linarith
qed

lemma channel_values:
  assumes "0 \<le> r" "r \<le> 255" "0 \<le> g" "g \<le> 255" "0 \<le> b" "b \<le> 255"
  shows "channel (Some r) (Some g) (Some b) 0 = r" "channel (Some r) (Some g) (Some b) 1 = g"
    "channel (Some r) (Some g) (Some b) 2 = b" "channel (Some r) (Some g) (Some b) 3 = 255"
  using assms by (simp_all add: channel_def uint_clamp8)

lemma hexColor_e63946: "hexColor ''#e63946''"
  by (simp add: hexColor_def hexDigit_def)

lemma fillable_matching: "fillable ed data t = matching ed data t"
  by (rule ext) (simp add: fillable_def matching_def openPixel_def colorMatches_spec)

lemma fillLoop_step:
  "fillLoop ed data t (c # q) V P =
     (if inCanvas ed c \<and> pixelIndex ed c \<notin> V \<and> matching ed data t c
      then fillLoop ed data t (q @ neighbours c) (insert (pixelIndex ed c) V) (P @ [mkPixel ed data c])
      else fillLoop ed data t q (if inCanvas ed c then insert (pixelIndex ed c) V else V) P)"
proof -
  consider (out) "\<not> inCanvas ed c"
    | (seen) "inCanvas ed c" "pixelIndex ed c \<in> V"
    | (blocked) "inCanvas ed c" "pixelIndex ed c \<notin> V" "\<not> fillable ed data t c"
    | (take) "inCanvas ed c" "pixelIndex ed c \<notin> V" "fillable ed data t c"
    by blast
  then show ?thesis
  proof cases
    case out
    then show ?thesis using fillLoop_out [OF out] by simp
  next
    case seen
    then show ?thesis using fillLoop_seen [OF seen] by (simp add: insert_absorb)
  next
    case blocked
    then show ?thesis using fillLoop_blocked [OF blocked] by (simp add: fillable_matching)
  next
    case take
    then show ?thesis using fillLoop_take [OF take] by (simp add: fillable_matching)
  qed
qed

lemma withinTolerance_alpha:
  assumes "\<forall>j. j mod 4 \<noteq> 3 \<longrightarrow> rd data' j = rd data j"
  shows "withinTolerance data' t (k * 4) = withinTolerance data t (k * 4)"
proof -
  have "(k * 4) mod 4 \<noteq> 3" "(k * 4 + 1) mod 4 \<noteq> 3" "(k * 4 + 2) mod 4 \<noteq> 3" by simp_all
  then have "rd data' (k * 4) = rd data (k * 4)" "rd data' (k * 4 + 1) = rd data (k * 4 + 1)"
    "rd data' (k * 4 + 2) = rd data (k * 4 + 2)"
    using assms by blast+
  then show ?thesis by (simp add: withinTolerance_def)
qed

lemma pixel_of_byte:
  fixes j k :: int
  shows "j - j mod 4 = k * 4 \<longleftrightarrow> j div 4 = k"
  by presburger

lemma fillTest_traversal:
  "traversal fillTest (0, 0)
     = [\<lparr>pos = 0, origR = Some 255, origG = Some 255, origB = Some 255\<rparr>,
        \<lparr>pos = 4, origR = Some 255, origG = Some 255, origB = Some 255\<rparr>]"
  by (simp add: traversal_def targetAt_def pixelIndex_def fillTest_def fillLoop.simps
      isLineBoundary_def rd_def colorMatches_def absDiffLe_def tolerance_def)

lemma fillTest_start:
  "\<not> boundaryAt fillTest (0, 0)" "\<not> alreadyFilled (ctx_data fillTest) 0 ''#e63946''"
  by (simp_all add: boundaryAt_def isLineBoundary_def fillTest_def rd_def alreadyFilled_def
      strictEq_def parseInt16_def slice_string_def hexDigit_def isWhiteSpace_def)

section \<open>Lemmas about the pointer handlers\<close>

lemma strokeTest_start:
  "handleStart testRect strokeTest (press (1 / 2) (1 / 2) 0)
     = strokeTest\<lparr>isDrawing := True, ctx_path := [([(1 / 2, 1 / 2)], False)],
         ctx_strokeStyle := ''#e63946'', ctx_lineWidth := 10\<rparr>"
  by (simp add: handleStart_def strokeTest_def testRect_def press_def getCoords_def moveTo_def Let_def)

lemma strokeTest_move:
  "ctx_data (handleMove discStroke testRect
       (handleStart testRect strokeTest (press (1 / 2) (1 / 2) 0)) (press (3 / 2) (1 / 2) 0))
     = [230, 57, 70, 255, 230, 57, 70, 255]"
  unfolding strokeTest_start
  by (simp add: handleMove_def strokeTest_def testRect_def press_def getCoords_def lineTo_def Let_def
      discStroke_def putPixel_def wr_def clamp8_def parseInt16_def slice_string_def hexDigit_def
      isWhiteSpace_def power2_eq_square upt_rec)

lemma drag_panning:
  assumes "isPanning s"
  shows "drag stroke s moves
       = (if moves = [] then s
          else s\<lparr>pan := (clientX (snd (last moves)) - fst (startPan s),
                        clientY (snd (last moves)) - snd (startPan s))\<rparr>)"
proof (induction moves rule: rev_induct)
  case Nil
  then show ?case by (simp add: drag_def)
next
  case (snoc m ms)
  have "drag stroke s (ms @ [m]) = handleMove stroke (fst m) (drag stroke s ms) (snd m)"
    by (simp add: drag_def)
  then show ?case using snoc assms by (simp add: handleMove_def)
qed

lemma handleMove_mask:
  "handleMove stroke rect (ed\<lparr>lineArtData := m\<rparr>) e = (handleMove stroke rect ed e)\<lparr>lineArtData := m\<rparr>"
  by (simp add: handleMove_def getCoords_def Let_def)

lemma drag_mask:
  "drag stroke (s\<lparr>lineArtData := m\<rparr>) moves = (drag stroke s moves)\<lparr>lineArtData := m\<rparr>"
proof (induction moves rule: rev_induct)
  case Nil
  then show ?case by (simp add: drag_def)
next
  case (snoc mv ms)
  have "drag stroke (s\<lparr>lineArtData := m\<rparr>) (ms @ [mv])
      = handleMove stroke (fst mv) (drag stroke (s\<lparr>lineArtData := m\<rparr>) ms) (snd mv)"
    by (simp add: drag_def)
  also have "\<dots> = handleMove stroke (fst mv) ((drag stroke s ms)\<lparr>lineArtData := m\<rparr>) (snd mv)"
    using snoc by simp
  also have "\<dots> = (handleMove stroke (fst mv) (drag stroke s ms) (snd mv))\<lparr>lineArtData := m\<rparr>"
    by (rule handleMove_mask)
  also have "\<dots> = (drag stroke s (ms @ [mv]))\<lparr>lineArtData := m\<rparr>"
    by (simp add: drag_def)
  finally show ?case .
qed

lemma handleEnd_mask:
  "handleEnd (ed\<lparr>lineArtData := m\<rparr>) = (handleEnd ed)\<lparr>lineArtData := m\<rparr>"
  by (simp add: handleEnd_def Let_def)

section \<open>Lemmas about the line-art processing\<close>

lemma brightness_boundary: "brightness (Some 114) (Some 244) (Some 199) = Some (7036874417766399, - 45)"
  by (simp add: brightness_def dadd_def dmul_def round53_def c299_def c587_def c114_def Let_def
      bitLength.simps)

lemma binarize_boundary: "binarize 200 [114, 244, 199, 255] = [0, 0, 0, 255]"
  by (simp add: binarize_def binarizePixel_def brightness_boundary rd_def wr_def clamp8_def dval_def)

lemma writes_append: "writes d (a @ b) = writes (writes d a) b"
  by (simp add: writes_def)

lemma length_writes [simp]: "length (writes d ws) = length d"
  by (induction ws arbitrary: d) (simp_all add: writes_def)

lemma rd_writes:
  assumes "\<forall>w \<in> set ws. snd w = f (fst w)"
  shows "rd (writes d ws) j
       = (if 0 \<le> j \<and> j < int (length d) \<and> j \<in> fst ` set ws then Some (uint (clamp8 (f j)))
          else rd d j)"
  using assms
proof (induction ws arbitrary: d)
  case Nil
  then show ?case by (simp add: writes_def)
next
  case (Cons w ws)
  have w: "snd w = f (fst w)" and rest: "\<forall>w \<in> set ws. snd w = f (fst w)"
    using Cons.prems by simp_all
  have "writes d (w # ws) = writes (wr d (fst w) (snd w)) ws" by (simp add: writes_def)
  then show ?case using Cons.IH [OF rest, of "wr d (fst w) (snd w)"] w
    by (auto simp add: rd_wr)
qed

lemma foldl_writes:
  "foldl (\<lambda>d x. writes d (g x)) d xs = writes d (concat (map g xs))"
  by (induction xs arbitrary: d) (simp_all add: writes_append writes_def)

lemma buffer_eqI:
  assumes "length a = length b" "\<And>j. rd a j = rd b j"
  shows "a = b"
proof (rule nth_equalityI)
  show "length a = length b" by fact
next
  fix i assume i: "i < length a"
  have "rd a (int i) = rd b (int i)" by (rule assms(2))
  then have "uint (a ! i) = uint (b ! i)" using i assms(1) by (simp add: rd_def)
  then show "a ! i = b ! i" by (rule word_uint_eqI)
qed

lemma clamp8_rd:
  assumes "rd o' j = Some v"
  shows "uint (clamp8 (Some v)) = v"
proof -
  have "0 \<le> v \<and> v \<le> 255"
  proof -
    obtain w :: "8 word" where "v = uint w" using assms by (auto simp add: rd_def split: if_splits)
    moreover have "uint w < 2 ^ 8" using uint_bounded [of w] by simp
    ultimately show ?thesis by simp
  qed
  then show ?thesis by (simp add: uint_clamp8)
qed

lemma copyBack_same:
  assumes "length output = length data"
  shows "copyBack data output = output"
proof -
  let ?ws = "map (\<lambda>i. (int i, rd output (int i))) [0 ..< length data]"
  have c: "copyBack data output = writes data ?ws"
    by (simp add: copyBack_def writes_def foldl_map)
  have f: "\<forall>w \<in> set ?ws. snd w = rd output (fst w)" by auto
  show ?thesis
  proof (rule buffer_eqI)
    show "length (copyBack data output) = length output" using assms by (simp add: c)
  next
    fix j
    have r: "rd (writes data ?ws) j
        = (if 0 \<le> j \<and> j < int (length data) \<and> j \<in> fst ` set ?ws
           then Some (uint (clamp8 (rd output j))) else rd data j)"
      by (rule rd_writes [OF f])
    show "rd (copyBack data output) j = rd output j"
    proof (cases "0 \<le> j \<and> j < int (length data)")
      case True
      then have "j \<in> fst ` set ?ws"
        by (auto simp add: image_iff intro!: bexI [of _ "nat j"])
      moreover obtain v where v: "rd output j = Some v" using True assms by (simp add: rd_def)
      ultimately show ?thesis using r True clamp8_rd [OF v] c v by simp
    next
      case False
      then show ?thesis using r c assms by (auto simp add: rd_def)
    qed
  qed
qed

lemma spreadBlack_writes:
  "spreadBlack a w h offs out p = writes out (spreadWrites a w h offs p)"
proof -
  have "spreadBlack a w h offs out p
      = foldl (\<lambda>d k. writes d (if inImage w h (fst p + fst k, snd p + snd k)
                       then pixelWrites a w (fst p + fst k, snd p + snd k) else [])) out offs"
    unfolding spreadBlack_def
    by (rule arg_cong [where f = "\<lambda>f. foldl f out offs"])
       (auto simp add: fun_eq_iff inImage_def pixelWrites_def writes_def Let_def)
  then show ?thesis by (simp add: foldl_writes spreadWrites_def)
qed

lemma dilateScan_writes:
  assumes "length data = n"
  shows "dilateScan a scan data w h r = writes data (dilateWrites a scan data w h r)"
proof -
  have "foldl (\<lambda>out p. if rd data ((snd p * int w + fst p) * 4) = Some 0
                     then spreadBlack a w h (kernelOffsets r) out p else out) data scan
      = foldl (\<lambda>d p. writes d (if blackAt data w p
                       then spreadWrites a w h (kernelOffsets r) p else [])) data scan"
    by (rule arg_cong [where f = "\<lambda>f. foldl f data scan"])
       (auto simp add: fun_eq_iff blackAt_def spreadBlack_writes writes_def)
  then have "foldl (\<lambda>out p. if rd data ((snd p * int w + fst p) * 4) = Some 0
                     then spreadBlack a w h (kernelOffsets r) out p else out) data scan
      = writes data (dilateWrites a scan data w h r)"
    by (simp add: foldl_writes dilateWrites_def)
  then show ?thesis by (simp add: dilateScan_def Let_def copyBack_same)
qed

lemma pixelWrites_value_aux:
  fixes n :: int
  shows "\<forall>w \<in> set ([(n * 4, Some 0), (n * 4 + 1, Some 0), (n * 4 + 2, Some 0)]
            @ (if a then [(n * 4 + 3, Some 255)] else [])). snd w = dilatedByte (fst w)"
  by (auto simp add: dilatedByte_def)

lemma pixelWrites_value: "\<forall>w \<in> set (pixelWrites a width q). snd w = dilatedByte (fst w)"
  unfolding pixelWrites_def Let_def by (rule pixelWrites_value_aux)

lemma dilateWrites_value:
  "\<forall>w \<in> set (dilateWrites a scan data width height r). snd w = dilatedByte (fst w)"
  using pixelWrites_value by (auto simp add: dilateWrites_def spreadWrites_def split: if_splits)

lemma byte_of_pixel:
  fixes i j :: int
  shows "(j = i * 4 \<or> j = i * 4 + 1 \<or> j = i * 4 + 2 \<or> (a \<and> j = i * 4 + 3))
       \<longleftrightarrow> j div 4 = i \<and> (j mod 4 \<noteq> 3 \<or> a)"
  by (cases a) presburger+

lemma pixelWrites_index:
  "j \<in> fst ` set (pixelWrites a width q)
     \<longleftrightarrow> j div 4 = snd q * int width + fst q \<and> (j mod 4 \<noteq> 3 \<or> a)"
proof -
  let ?i = "snd q * int width + fst q"
  have "j \<in> fst ` set (pixelWrites a width q)
      \<longleftrightarrow> (j = ?i * 4 \<or> j = ?i * 4 + 1 \<or> j = ?i * 4 + 2 \<or> (a \<and> j = ?i * 4 + 3))"
    unfolding pixelWrites_def Let_def by auto
  also have "\<dots> \<longleftrightarrow> j div 4 = ?i \<and> (j mod 4 \<noteq> 3 \<or> a)"
    by (rule byte_of_pixel)
  finally show ?thesis .
qed

lemma dilateWrites_index:
  "j \<in> fst ` set (dilateWrites a scan data width height r)
     \<longleftrightarrow> (\<exists>p \<in> set scan. blackAt data width p
           \<and> (\<exists>k \<in> set (kernelOffsets r). inImage width height (fst p + fst k, snd p + snd k)
                 \<and> j div 4 = (snd p + snd k) * int width + (fst p + fst k)
                 \<and> (j mod 4 \<noteq> 3 \<or> a)))"
proof -
  have "j \<in> fst ` set (dilateWrites a scan data width height r)
     \<longleftrightarrow> (\<exists>p \<in> set scan. blackAt data width p
           \<and> (\<exists>k \<in> set (kernelOffsets r). inImage width height (fst p + fst k, snd p + snd k)
                 \<and> j \<in> fst ` set (pixelWrites a width (fst p + fst k, snd p + snd k))))"
    by (auto simp add: dilateWrites_def spreadWrites_def image_iff split: if_splits)
  then show ?thesis by (simp add: pixelWrites_index)
qed

lemma kernelOffsets_iff:
  "(dx, dy) \<in> set (kernelOffsets r)
     \<longleftrightarrow> - r \<le> dx \<and> dx \<le> r \<and> - r \<le> dy \<and> dy \<le> r \<and> dx * dx + dy * dy \<le> r * r"
  by (auto simp add: kernelOffsets_def)

lemma square_le_bound:
  fixes x r :: int
  assumes "0 \<le> r" "x * x + y * y \<le> r * r"
  shows "- r \<le> x \<and> x \<le> r"
proof -
  have "0 \<le> y * y" by simp
  then have "x * x \<le> r * r" using assms(2) by linarith
  then have "\<bar>x\<bar> \<le> \<bar>r\<bar>" by (simp add: abs_le_square_iff power2_eq_square)
  then show ?thesis using assms(1) by linarith
qed

lemma kernelOffsets_disk:
  assumes "0 \<le> r"
  shows "(dx, dy) \<in> set (kernelOffsets r) \<longleftrightarrow> dx * dx + dy * dy \<le> r * r"
  using square_le_bound [OF assms, of dx dy] square_le_bound [OF assms, of dy dx]
  by (auto simp add: kernelOffsets_iff add.commute)

lemma set_rowMajor: "set (rowMajor width height) = {q. inImage width height q}"
proof (intro set_eqI iffI)
  fix q assume "q \<in> set (rowMajor width height)"
  then show "q \<in> {q. inImage width height q}"
    by (auto simp add: rowMajor_def inImage_def)
next
  fix q assume "q \<in> {q. inImage width height q}"
  then have b: "0 \<le> fst q" "fst q < int width" "0 \<le> snd q" "snd q < int height"
    by (simp_all add: inImage_def)
  have "q = (int (nat (fst q)), int (nat (snd q)))" using b by simp
  moreover have "nat (fst q) < width" "nat (snd q) < height" using b by simp_all
  ultimately show "q \<in> set (rowMajor width height)"
    unfolding rowMajor_def by (auto simp del: int_nat_eq intro!: bexI [of _ "nat (snd q)"])
qed

lemma image_index_inj:
  fixes x y x' y' :: int
  assumes "0 \<le> x" "x < w" "0 \<le> x'" "x' < w" "y * w + x = y' * w + x'"
  shows "x = x' \<and> y = y'"
proof -
  have "(y * w + x) mod w = x" "(y' * w + x') mod w = x'" using assms(1-4) by simp_all
  then have x: "x = x'" using assms(5) by simp
  have "w \<noteq> 0" using assms by auto
  then have "y = y'" using assms(5) x by simp
  then show ?thesis using x by simp
qed

lemma spread_targets:
  assumes r: "0 \<le> r" and scan: "set scan = {q. inImage width height q}"
  shows "(\<exists>p \<in> set scan. blackAt data width p
           \<and> (\<exists>k \<in> set (kernelOffsets r). inImage width height (fst p + fst k, snd p + snd k)
                 \<and> i = (snd p + snd k) * int width + (fst p + fst k)))
       \<longleftrightarrow> (\<exists>q. inImage width height q \<and> i = snd q * int width + fst q
                \<and> nearBlack data width height r q)"
proof
  assume "\<exists>p \<in> set scan. blackAt data width p
           \<and> (\<exists>k \<in> set (kernelOffsets r). inImage width height (fst p + fst k, snd p + snd k)
                 \<and> i = (snd p + snd k) * int width + (fst p + fst k))"
  then obtain p k where pk: "p \<in> set scan" "blackAt data width p" "k \<in> set (kernelOffsets r)"
    "inImage width height (fst p + fst k, snd p + snd k)"
    "i = (snd p + snd k) * int width + (fst p + fst k)"
    by blast
  let ?q = "(fst p + fst k, snd p + snd k)"
  have d: "fst k * fst k + snd k * snd k \<le> r * r"
    using pk(3) kernelOffsets_disk [OF r, of "fst k" "snd k"] by simp
  have "inImage width height p" using pk(1) scan by simp
  then have "nearBlack data width height r ?q"
    unfolding nearBlack_def using d pk(2)
    by (intro exI [of _ "- fst k"] exI [of _ "- snd k"]) simp
  then show "\<exists>q. inImage width height q \<and> i = snd q * int width + fst q
                \<and> nearBlack data width height r q"
    using pk(4,5) by (intro exI [of _ ?q]) simp
next
  assume "\<exists>q. inImage width height q \<and> i = snd q * int width + fst q
                \<and> nearBlack data width height r q"
  then obtain q dx dy where q: "inImage width height q" "i = snd q * int width + fst q"
    "dx * dx + dy * dy \<le> r * r" "inImage width height (fst q + dx, snd q + dy)"
    "blackAt data width (fst q + dx, snd q + dy)"
    unfolding nearBlack_def by blast
  let ?p = "(fst q + dx, snd q + dy)"
  let ?k = "(- dx, - dy)"
  have "?k \<in> set (kernelOffsets r)" using kernelOffsets_disk [OF r, of "- dx" "- dy"] q(3) by simp
  moreover have "?p \<in> set scan" using q(4) scan by simp
  moreover have "inImage width height (fst ?p + fst ?k, snd ?p + snd ?k)" using q(1) by simp
  moreover have "i = (snd ?p + snd ?k) * int width + (fst ?p + fst ?k)" using q(2) by simp
  ultimately show "\<exists>p \<in> set scan. blackAt data width p
           \<and> (\<exists>k \<in> set (kernelOffsets r). inImage width height (fst p + fst k, snd p + snd k)
                 \<and> i = (snd p + snd k) * int width + (fst p + fst k))"
    using q(5) by blast
qed

lemma binarizePixel_putPixel:
  "binarizePixel t d i
     = putPixel d i (Some (binaryValue t d i)) (Some (binaryValue t d i)) (Some (binaryValue t d i))"
  by (simp add: binarizePixel_def putPixel_def binaryValue_def Let_def)

lemma binaryValue_cases: "binaryValue t d i = 0 \<or> binaryValue t d i = 255"
  by (simp add: binaryValue_def split: option.splits)

lemma binaryValue_cong:
  assumes "rd d i = rd d' i" "rd d (i + 1) = rd d' (i + 1)" "rd d (i + 2) = rd d' (i + 2)"
  shows "binaryValue t d i = binaryValue t d' i"
  using assms by (simp add: binaryValue_def)

lemma channel_binary:
  assumes "b = 0 \<or> b = 255"
  shows "channel (Some b) (Some b) (Some b) c = (if c = 0 \<or> c = 1 \<or> c = 2 then b else 255)"
  using assms by (auto simp add: channel_def uint_clamp8)

lemma length_binarize_upto [simp]:
  "length (foldl (binarizePixel t) d (map (\<lambda>k. int k * 4) [0 ..< m])) = length d"
  by (induction m) (simp_all add: binarizePixel_putPixel)

lemma rd_binarize_upto:
  "rd (foldl (binarizePixel t) data (map (\<lambda>k. int k * 4) [0 ..< m])) j
     = (if 0 \<le> j \<and> j < int (length data) \<and> j < int m * 4
        then Some (if j mod 4 = 3 then 255 else binaryValue t data (j - j mod 4))
        else rd data j)"
proof (induction m arbitrary: j)
  case 0
  then show ?case by auto
next
  case (Suc m)
  let ?d = "foldl (binarizePixel t) data (map (\<lambda>k. int k * 4) [0 ..< m])"
  let ?i = "int m * 4"
  have same: "rd ?d j' = rd data j'" if "?i \<le> j'" for j'
    using Suc.IH [of j'] that by simp
  have bv: "binaryValue t ?d ?i = binaryValue t data ?i"
    by (rule binaryValue_cong) (simp_all add: same)
  have step: "foldl (binarizePixel t) data (map (\<lambda>k. int k * 4) [0 ..< Suc m])
      = putPixel ?d ?i (Some (binaryValue t data ?i)) (Some (binaryValue t data ?i))
          (Some (binaryValue t data ?i))"
    by (simp add: binarizePixel_putPixel bv)
  show ?case
  proof (cases "?i \<le> j \<and> j \<le> ?i + 3")
    case True
    then have m4: "j - j mod 4 = ?i" using aligned_cover [of ?i j] by simp
    then have c: "j - ?i = j mod 4" by linarith
    have k: "j mod 4 = 0 \<or> j mod 4 = 1 \<or> j mod 4 = 2 \<or> j mod 4 = 3" by presburger
    have nn: "0 \<le> j" "j < int (Suc m) * 4" using True by simp_all
    show ?thesis
    proof (cases "j < int (length data)")
      case inr: True
      have "rd (putPixel ?d ?i (Some (binaryValue t data ?i)) (Some (binaryValue t data ?i))
          (Some (binaryValue t data ?i))) j
          = Some (channel (Some (binaryValue t data ?i)) (Some (binaryValue t data ?i))
              (Some (binaryValue t data ?i)) (j mod 4))"
        using True nn inr c by (simp add: rd_putPixel)
      also have "\<dots> = Some (if j mod 4 = 3 then 255 else binaryValue t data (j - j mod 4))"
        using k m4 by (auto simp add: channel_binary [OF binaryValue_cases])
      finally show ?thesis unfolding step using nn inr by simp
    next
      case outr: False
      then have "rd (putPixel ?d ?i (Some (binaryValue t data ?i)) (Some (binaryValue t data ?i))
          (Some (binaryValue t data ?i))) j = rd ?d j"
        by (simp add: rd_putPixel)
      then show ?thesis unfolding step using outr same [of j] True by simp
    qed
  next
    case False
    then have "rd (putPixel ?d ?i (Some (binaryValue t data ?i)) (Some (binaryValue t data ?i))
          (Some (binaryValue t data ?i))) j = rd ?d j"
      by (auto simp add: rd_putPixel)
    moreover have "rd ?d j = (if 0 \<le> j \<and> j < int (length data) \<and> j < int (Suc m) * 4
        then Some (if j mod 4 = 3 then 255 else binaryValue t data (j - j mod 4))
        else rd data j)"
    proof (cases "j < ?i")
      case True
      then show ?thesis using Suc.IH [of j] by simp
    next
      case ge: False
      then have "\<not> j < int (Suc m) * 4" using False by simp
      then show ?thesis using same [of j] ge by simp
    qed
    ultimately show ?thesis unfolding step by simp
  qed
qed

lemma uint_dilatedByte: "uint (clamp8 (dilatedByte j)) = (if j mod 4 = 3 then 255 else 0)"
  by (simp add: dilatedByte_def uint_clamp8)

lemma rd_dilateScan:
  assumes r: "0 \<le> r" and scan: "set scan = {q. inImage w h q}"
  shows "rd (dilateScan a scan data w h r) j
       = (if 0 \<le> j \<and> j < int (length data)
             \<and> (\<exists>q. inImage w h q \<and> j div 4 = snd q * int w + fst q \<and> nearBlack data w h r q)
             \<and> (j mod 4 \<noteq> 3 \<or> a)
          then Some (if j mod 4 = 3 then 255 else 0) else rd data j)"
proof -
  have m: "j \<in> fst ` set (dilateWrites a scan data w h r)
      \<longleftrightarrow> (\<exists>q. inImage w h q \<and> j div 4 = snd q * int w + fst q \<and> nearBlack data w h r q)
          \<and> (j mod 4 \<noteq> 3 \<or> a)"
    unfolding dilateWrites_index using spread_targets [OF r scan, of data "j div 4"] by blast
  have "rd (writes data (dilateWrites a scan data w h r)) j
      = (if 0 \<le> j \<and> j < int (length data) \<and> j \<in> fst ` set (dilateWrites a scan data w h r)
         then Some (uint (clamp8 (dilatedByte j))) else rd data j)"
    by (rule rd_writes [OF dilateWrites_value])
  then show ?thesis
    unfolding dilateScan_writes [OF refl] m uint_dilatedByte by simp
qed

lemma pixel_byte_range:
  assumes "inImage w h q" "length data = 4 * w * h" "0 \<le> c" "c \<le> 3"
  shows "0 \<le> (snd q * int w + fst q) * 4 + c \<and> (snd q * int w + fst q) * 4 + c < int (length data)"
proof -
  have r: "0 \<le> snd q * int w + fst q \<and> snd q * int w + fst q < int w * int h"
    using pixelIndex_range [of "fst q" w "snd q" h] assms(1) by (simp add: inImage_def)
  have l: "int (length data) = 4 * (int w * int h)" using assms(2) by simp
  define i where "i = snd q * int w + fst q"
  define n where "n = int w * int h"
  have "0 \<le> i" "i < n" using r by (simp_all add: i_def n_def)
  then have "0 \<le> i * 4 + c \<and> i * 4 + c < 4 * n" using assms(3,4) by linarith
  then show ?thesis unfolding l i_def n_def .
qed

lemma pixel_of_index:
  assumes "inImage w h q"
  shows "(\<exists>q'. inImage w h q' \<and> snd q * int w + fst q = snd q' * int w + fst q' \<and> P q') \<longleftrightarrow> P q"
proof
  assume "\<exists>q'. inImage w h q' \<and> snd q * int w + fst q = snd q' * int w + fst q' \<and> P q'"
  then obtain q' where q': "inImage w h q'" "snd q * int w + fst q = snd q' * int w + fst q'" "P q'"
    by blast
  have "fst q = fst q' \<and> snd q = snd q'"
    using image_index_inj [of "fst q" "int w" "fst q'" "snd q" "snd q'"] assms q'(1,2)
    by (simp add: inImage_def)
  then have "q = q'" by (simp add: prod_eq_iff)
  then show "P q" using q'(3) by simp
next
  assume "P q"
  then show "\<exists>q'. inImage w h q' \<and> snd q * int w + fst q = snd q' * int w + fst q' \<and> P q'"
    using assms by blast
qed

lemma rd_dilateScan_pixel:
  assumes r: "0 \<le> r" and scan: "set scan = {q. inImage w h q}"
    and q: "inImage w h q" and len: "length data = 4 * w * h" and c: "c \<in> {0, 1, 2, 3}"
  shows "rd (dilateScan a scan data w h r) ((snd q * int w + fst q) * 4 + c)
       = (if nearBlack data w h r q \<and> (c \<noteq> 3 \<or> a) then Some (if c = 3 then 255 else 0)
          else rd data ((snd q * int w + fst q) * 4 + c))"
proof -
  let ?i = "snd q * int w + fst q"
  have dm: "(i * 4 + c) div 4 = i \<and> (i * 4 + c) mod 4 = c" for i :: int
    using c by (elim insertE emptyE) presburger+
  have d: "(?i * 4 + c) div 4 = ?i" "(?i * 4 + c) mod 4 = c" using dm [of ?i] by simp_all
  have rng: "0 \<le> ?i * 4 + c \<and> ?i * 4 + c < int (length data)"
    using pixel_byte_range [OF q len, of c] c by auto
  have ex: "(\<exists>q'. inImage w h q' \<and> ?i = snd q' * int w + fst q' \<and> nearBlack data w h r q')
      \<longleftrightarrow> nearBlack data w h r q"
    by (rule pixel_of_index [OF q])
  show ?thesis
    unfolding rd_dilateScan [OF r scan] d ex using rng by simp
qed

lemma nearBlack_self:
  assumes "inImage w h q" "blackAt data w q"
  shows "nearBlack data w h r q"
  unfolding nearBlack_def using assms by (intro exI [of _ 0]) simp

lemma pixelBytes_dilateScan:
  assumes r: "0 \<le> r" and scan: "set scan = {q. inImage w h q}"
    and q: "inImage w h q" and len: "length data = 4 * w * h"
    and bin: "binaryImage data w h"
  shows "pixelBytes (dilateScan a scan data w h r) w q
       = (if nearBlack data w h r q then blackPixel else whitePixel)"
proof -
  let ?i = "(snd q * int w + fst q) * 4"
  note R = rd_dilateScan_pixel [OF r scan q len]
  have b: "pixelBytes data w q = blackPixel \<or> pixelBytes data w q = whitePixel"
    using bin q unfolding binaryImage_def by blast
  have a3: "rd data (?i + 3) = Some 255"
    using b by (auto simp add: pixelBytes_def Let_def blackPixel_def whitePixel_def)
  show ?thesis
  proof (cases "nearBlack data w h r q")
    case True
    then show ?thesis
      using R [of 0 a] R [of 1 a] R [of 2 a] R [of 3 a] a3
      by (simp add: pixelBytes_def Let_def blackPixel_def)
  next
    case False
    then have "\<not> blackAt data w q" using nearBlack_self [OF q] by blast
    then have "pixelBytes data w q = whitePixel"
      using b by (auto simp add: pixelBytes_def Let_def blackPixel_def blackAt_def)
    then show ?thesis
      using False R [of 0 a] R [of 1 a] R [of 2 a] R [of 3 a]
      by (simp add: pixelBytes_def Let_def)
  qed
qed

lemma blackAt_dilateScan:
  assumes r: "0 \<le> r" and scan: "set scan = {q. inImage w h q}"
    and q: "inImage w h q" and len: "length data = 4 * w * h"
  shows "blackAt (dilateScan a scan data w h r) w q \<longleftrightarrow> nearBlack data w h r q"
proof -
  have R: "rd (dilateScan a scan data w h r) ((snd q * int w + fst q) * 4)
       = (if nearBlack data w h r q then Some 0 else rd data ((snd q * int w + fst q) * 4))"
    using rd_dilateScan_pixel [OF r scan q len, of 0 a] by simp
  show ?thesis
  proof (cases "nearBlack data w h r q")
    case True
    then show ?thesis using R by (simp add: blackAt_def)
  next
    case False
    then have "\<not> blackAt data w q" using nearBlack_self [OF q] by blast
    then show ?thesis using R False by (simp add: blackAt_def)
  qed
qed

lemma length_dilateScan [simp]: "length (dilateScan a scan data w h r) = length data"
  by (simp add: dilateScan_writes [OF refl])

lemma dilateScan_order:
  assumes r: "0 \<le> r" and scan: "set scan = {q. inImage w h q}"
    and scan': "set scan' = {q. inImage w h q}"
  shows "dilateScan a scan data w h r = dilateScan a scan' data w h r"
proof (rule buffer_eqI)
  show "length (dilateScan a scan data w h r) = length (dilateScan a scan' data w h r)" by simp
next
  fix j
  show "rd (dilateScan a scan data w h r) j = rd (dilateScan a scan' data w h r) j"
    unfolding rd_dilateScan [OF r scan] rd_dilateScan [OF r scan'] by (rule refl)
qed

lemma length_binarize [simp]: "length (binarize t pixels) = length pixels"
  by (simp add: binarize_def)

lemma rd_binarize:
  "rd (binarize t pixels) j
     = (if 0 \<le> j \<and> j < int (length pixels)
        then Some (if j mod 4 = 3 then 255 else binaryValue t pixels (j - j mod 4))
        else None)"
proof -
  let ?m = "(length pixels + 3) div 4"
  have "j < int ?m * 4" if "j < int (length pixels)"
    using that by linarith
  then show ?thesis
    unfolding binarize_def rd_binarize_upto by (auto simp add: rd_def)
qed

lemma pixelBytes_binarize:
  assumes q: "inImage w h q" and len: "length pixels = 4 * w * h"
  shows "pixelBytes (binarize t pixels) w q
       = (if binaryValue t pixels ((snd q * int w + fst q) * 4) = 0 then blackPixel else whitePixel)"
proof -
  let ?i = "(snd q * int w + fst q) * 4"
  have rng: "0 \<le> ?i + c \<and> ?i + c < int (length pixels)" if "0 \<le> c" "c \<le> 3" for c
    using pixel_byte_range [OF q len that] .
  have al: "(i * 4 + 1) mod 4 = 1 \<and> (i * 4 + 2) mod 4 = 2 \<and> (i * 4 + 3) mod 4 = 3
      \<and> (i * 4) mod 4 = 0" for i :: int
    by presburger
  note m = al [of "snd q * int w + fst q"]
  have b: "rd (binarize t pixels) ?i = Some (binaryValue t pixels ?i)"
    "rd (binarize t pixels) (?i + 1) = Some (binaryValue t pixels ?i)"
    "rd (binarize t pixels) (?i + 2) = Some (binaryValue t pixels ?i)"
    "rd (binarize t pixels) (?i + 3) = Some 255"
    using rng [of 0] rng [of 1] rng [of 2] rng [of 3] m
    by (simp_all add: rd_binarize)
  show ?thesis
    using binaryValue_cases [of t pixels ?i] b
    by (auto simp add: pixelBytes_def Let_def blackPixel_def whitePixel_def)
qed

lemma binaryImage_binarize:
  assumes "length pixels = 4 * w * h"
  shows "binaryImage (binarize t pixels) w h"
  unfolding binaryImage_def using pixelBytes_binarize [OF _ assms] by simp

lemma dval_powi: "dval d = of_int (fst d) * 2 powi (snd d)"
proof (cases "0 \<le> snd d")
  case True
  then have "(2::real) powi (snd d) = 2 ^ nat (snd d)" by (simp add: power_int_def)
  then show ?thesis using True by (simp add: dval_def)
next
  case False
  then have "(2::real) powi (snd d) = inverse (2 ^ nat (- snd d))"
    by (simp add: power_int_def power_one_over inverse_eq_divide)
  then show ?thesis using False by (simp add: dval_def divide_inverse)
qed

lemma bitLength_bounds:
  "0 < n \<Longrightarrow> 2 ^ (bitLength n - 1) \<le> n \<and> n < 2 ^ bitLength n"
proof (induction n rule: bitLength.induct)
  case (1 n)
  show ?case
  proof (cases "n div 2 = 0")
    case True
    then have "n = 1" using 1(2) by linarith
    then show ?thesis by (simp add: bitLength.simps)
  next
    case False
    then have h: "0 < n div 2" by simp
    have n0: "n \<noteq> 0" using 1(2) by simp
    have ih: "2 ^ (bitLength (n div 2) - 1) \<le> n div 2 \<and> n div 2 < 2 ^ bitLength (n div 2)"
      using 1(1) [OF n0 h] .
    have bl: "bitLength n = Suc (bitLength (n div 2))" using n0 by (simp add: bitLength.simps [of n])
    have pos: "0 < bitLength (n div 2)" using h by (simp add: bitLength.simps [of "n div 2"])
    then have e: "2 ^ (bitLength n - 1) = 2 * 2 ^ (bitLength (n div 2) - 1)"
      unfolding bl by (cases "bitLength (n div 2)") simp_all
    have "2 * 2 ^ (bitLength (n div 2) - 1) \<le> 2 * (n div 2)" using ih by simp
    also have "\<dots> \<le> n" by simp
    finally have lo: "2 ^ (bitLength n - 1) \<le> n" unfolding e .
    have "n < 2 * (n div 2) + 2" by linarith
    also have "\<dots> \<le> 2 * 2 ^ bitLength (n div 2)" using ih by simp
    finally have hi: "n < 2 ^ bitLength n" unfolding bl by simp
    show ?thesis using lo hi by simp
  qed
qed

lemma round_shift_error:
  fixes n s :: nat
  assumes s: "0 < s"
  defines "q \<equiv> n div 2 ^ s" and "r \<equiv> n mod 2 ^ s" and "h \<equiv> (2::nat) ^ (s - 1)"
  defines "q' \<equiv> (if h < r \<or> (r = h \<and> odd q) then q + 1 else q)"
  shows "\<bar>int q' * 2 ^ s - int n\<bar> \<le> 2 ^ (s - 1)"
proof -
  have two: "(2::nat) ^ s = 2 * h" using s unfolding h_def by (cases s) simp_all
  have n: "n = q * (2 * h) + r"
    unfolding q_def r_def two [symmetric] using div_mult_mod_eq [of n "2 ^ s"] by linarith
  have rlt: "r < 2 * h" unfolding r_def two [symmetric] by simp
  have hh: "(2::int) ^ (s - 1) = int h" unfolding h_def by simp
  have ts: "(2::int) ^ s = 2 * int h" using two by (metis of_nat_mult of_nat_numeral of_nat_power)
  show ?thesis
  proof (cases "h < r \<or> (r = h \<and> odd q)")
    case True
    then have "q' = q + 1" by (simp add: q'_def)
    moreover have "h \<le> r" using True by auto
    ultimately show ?thesis unfolding hh ts using n rlt by (simp add: algebra_simps)
  next
    case False
    then have "q' = q" by (simp add: q'_def)
    moreover have "r \<le> h" using False by auto
    ultimately show ?thesis unfolding hh ts using n by (simp add: algebra_simps)
  qed
qed

lemma round53_error: "\<bar>dval (round53 d) - dval d\<bar> * 2 ^ 53 \<le> \<bar>dval d\<bar>"
proof -
  obtain m e where d: "d = (m, e)" by (cases d)
  define n where "n = nat \<bar>m\<bar>"
  define l where "l = bitLength n"
  show ?thesis
  proof (cases "l \<le> 53")
    case True
    then have "round53 d = d" by (simp add: round53_def d n_def l_def Let_def)
    then show ?thesis by simp
  next
    case False
    define s where "s = l - 53"
    define q where "q = n div 2 ^ s"
    define r where "r = n mod 2 ^ s"
    define h where "h = (2::nat) ^ (s - 1)"
    define q' where "q' = (if h < r \<or> (r = h \<and> odd q) then q + 1 else q)"
    define K where "K = (2::real) powi e"
    have s: "0 < s" using False by (simp add: s_def)
    have npos: "0 < n"
    proof (rule ccontr)
      assume "\<not> 0 < n"
      then have "l = 0" by (simp add: l_def bitLength.simps)
      then show False using False by simp
    qed
    have rd: "round53 d = (sgn m * int q', e + int s)"
      using False
      unfolding q'_def h_def r_def q_def s_def l_def n_def d
      by (simp add: round53_def Let_def)
    have Kpos: "0 < K" by (simp add: K_def)
    have pw: "(2::real) powi (e + int s) = K * 2 ^ s"
      by (simp add: K_def power_int_add)
    have m: "m = sgn m * int n" by (simp add: n_def sgn_mult_abs)
    have v1: "dval (round53 d) = of_int (sgn m) * (of_int (int q' * 2 ^ s)) * K"
      unfolding rd dval_powi by (simp add: pw)
    have v0: "dval d = of_int (sgn m) * of_int (int n) * K"
      unfolding d dval_powi using m by (simp add: K_def) (metis of_int_mult of_int_of_nat_eq)
    have diff: "dval (round53 d) - dval d = of_int (sgn m) * of_int (int q' * 2 ^ s - int n) * K"
      unfolding v1 v0 by (simp add: algebra_simps)
    have sg: "\<bar>of_int (sgn m) :: real\<bar> = 1"
      using npos by (simp add: n_def abs_sgn_eq flip: of_int_abs)
    have err: "\<bar>int q' * 2 ^ s - int n\<bar> \<le> 2 ^ (s - 1)"
      unfolding q'_def h_def r_def q_def by (rule round_shift_error [OF s])
    have big: "2 ^ (s - 1) * 2 ^ 53 \<le> n"
    proof -
      have "l - 1 = (s - 1) + 53" using False s by (simp add: s_def)
      then have "(2::nat) ^ (s - 1) * 2 ^ 53 = 2 ^ (l - 1)" by (simp add: power_add)
      then show ?thesis using bitLength_bounds [OF npos] by (simp add: l_def)
    qed
    have a1: "\<bar>dval (round53 d) - dval d\<bar> = of_int \<bar>int q' * 2 ^ s - int n\<bar> * K"
      unfolding diff using Kpos sg by (simp add: abs_mult)
    have a0: "\<bar>dval d\<bar> = of_nat n * K"
      unfolding v0 using Kpos sg by (simp add: abs_mult)
    have "of_int \<bar>int q' * 2 ^ s - int n\<bar> * 2 ^ 53 \<le> (of_int (2 ^ (s - 1)) :: real) * 2 ^ 53"
      using err by (intro mult_right_mono) (simp_all only: of_int_le_iff, simp)
    also have "\<dots> = of_nat (2 ^ (s - 1) * 2 ^ 53)" by simp
    also have "\<dots> \<le> of_nat n" using big by (simp only: of_nat_le_iff)
    finally have "of_int \<bar>int q' * 2 ^ s - int n\<bar> * 2 ^ 53 \<le> (of_nat n :: real)" .
    then have "of_int \<bar>int q' * 2 ^ s - int n\<bar> * 2 ^ 53 * K \<le> of_nat n * K"
      using Kpos by (intro mult_right_mono) simp_all
    then show ?thesis unfolding a1 a0 by (simp add: algebra_simps)
  qed
qed

lemma dval_product: "dval (fst a * fst b, snd a + snd b) = dval a * dval b"
  by (simp add: dval_powi power_int_add)

lemma dval_aligned:
  assumes "e \<le> snd a"
  shows "dval (fst a * 2 ^ nat (snd a - e), e) = dval a"
proof -
  have "(2::real) powi (snd a) = 2 powi (e + (snd a - e))" by simp
  also have "\<dots> = 2 powi e * 2 powi (snd a - e)" by (rule power_int_add) simp
  also have "(2::real) powi (snd a - e) = 2 ^ nat (snd a - e)"
    using assms by (simp add: power_int_def)
  finally show ?thesis by (simp add: dval_powi)
qed

lemma dval_plus: "dval (m + n, e) = dval (m, e) + dval (n, e)"
  by (simp add: dval_powi algebra_simps)

lemma dval_sum:
  "dval (fst a * 2 ^ nat (snd a - min (snd a) (snd b)) + fst b * 2 ^ nat (snd b - min (snd a) (snd b)),
         min (snd a) (snd b)) = dval a + dval b"
  unfolding dval_plus by (simp add: dval_aligned)

lemma dmul_error: "\<bar>dval (dmul a b) - dval a * dval b\<bar> * 2 ^ 53 \<le> \<bar>dval a * dval b\<bar>"
  unfolding dmul_def using round53_error [of "(fst a * fst b, snd a + snd b)"]
  by (simp only: dval_product)

lemma dadd_error: "\<bar>dval (dadd a b) - (dval a + dval b)\<bar> * 2 ^ 53 \<le> \<bar>dval a + dval b\<bar>"
  unfolding dadd_def Let_def
  using round53_error [of "(fst a * 2 ^ nat (snd a - min (snd a) (snd b))
      + fst b * 2 ^ nat (snd b - min (snd a) (snd b)), min (snd a) (snd b))"]
  by (simp only: dval_sum)

lemma channel_product_error:
  assumes r: "0 \<le> r" "r \<le> 255"
    and c: "\<bar>dval c - k\<bar> \<le> dk" "0 \<le> dval c" "dval c \<le> K"
  shows "\<bar>dval (dmul c (r, 0)) - k * of_int r\<bar> \<le> K * 255 / 2 ^ 53 + 255 * dk"
proof -
  define x where "x = dval c * of_int r"
  have dr: "dval (r, 0) = of_int r" by (simp add: dval_def)
  have r': "0 \<le> (of_int r :: real)" "(of_int r :: real) \<le> 255" using r by simp_all
  have x0: "0 \<le> x" unfolding x_def using c(2) r'(1) by simp
  have "x \<le> K * 255" unfolding x_def using c(2,3) r' by (intro mult_mono) simp_all
  then have ax: "\<bar>x\<bar> \<le> K * 255" using x0 by simp
  have "\<bar>dval (dmul c (r, 0)) - x\<bar> * 2 ^ 53 \<le> \<bar>x\<bar>"
    using dmul_error [of c "(r, 0)"] by (simp add: dr x_def)
  then have e1: "\<bar>dval (dmul c (r, 0)) - x\<bar> \<le> K * 255 / 2 ^ 53"
    using ax by (simp add: field_simps)
  have "\<bar>x - k * of_int r\<bar> = \<bar>dval c - k\<bar> * of_int r"
    unfolding x_def using r'(1) by (simp add: abs_mult flip: left_diff_distrib)
  also have "\<dots> \<le> dk * 255"
    using c(1) r' by (intro mult_mono) simp_all
  finally have e2: "\<bar>x - k * of_int r\<bar> \<le> 255 * dk" by simp
  show ?thesis using e1 e2 by linarith
qed

lemma sum_error:
  assumes a: "\<bar>dval a - x\<bar> \<le> da" and b: "\<bar>dval b - y\<bar> \<le> db" and m: "\<bar>x + y\<bar> \<le> M"
  shows "\<bar>dval (dadd a b) - (x + y)\<bar> \<le> (M + da + db) / 2 ^ 53 + da + db"
proof -
  define S where "S = dval a + dval b"
  have s1: "\<bar>S - (x + y)\<bar> \<le> da + db" unfolding S_def using a b by linarith
  then have s2: "\<bar>S\<bar> \<le> M + da + db" using m by linarith
  have "\<bar>dval (dadd a b) - S\<bar> * 2 ^ 53 \<le> \<bar>S\<bar>" unfolding S_def by (rule dadd_error)
  then have "\<bar>dval (dadd a b) - S\<bar> \<le> (M + da + db) / 2 ^ 53"
    using s2 by (simp add: field_simps)
  then show ?thesis using s1 by linarith
qed

lemma c299_value: "\<bar>dval c299 - 299 / 1000\<bar> \<le> 1 / 2 ^ 55 \<and> 0 \<le> dval c299 \<and> dval c299 \<le> 3 / 10"
  by (simp add: c299_def dval_def abs_if field_simps)

lemma c587_value: "\<bar>dval c587 - 587 / 1000\<bar> \<le> 1 / 2 ^ 54 \<and> 0 \<le> dval c587 \<and> dval c587 \<le> 6 / 10"
  by (simp add: c587_def dval_def abs_if field_simps)

lemma c114_value: "\<bar>dval c114 - 114 / 1000\<bar> \<le> 1 / 2 ^ 57 \<and> 0 \<le> dval c114 \<and> dval c114 \<le> 2 / 10"
  by (simp add: c114_def dval_def abs_if field_simps)

lemma brightness_error:
  assumes "0 \<le> r" "r \<le> 255" "0 \<le> g" "g \<le> 255" "0 \<le> b" "b \<le> 255"
  shows "\<exists>v. brightness (Some r) (Some g) (Some b) = Some v
           \<and> \<bar>dval v - luminance r g b\<bar> \<le> 1 / 2 ^ 43"
proof -
  define p1 where "p1 = dmul c299 (r, 0)"
  define p2 where "p2 = dmul c587 (g, 0)"
  define p3 where "p3 = dmul c114 (b, 0)"
  define s1 where "s1 = dadd p1 p2"
  define s2 where "s2 = dadd s1 p3"
  define x1 :: real where "x1 = 299 / 1000 * of_int r"
  define x2 :: real where "x2 = 587 / 1000 * of_int g"
  define x3 :: real where "x3 = 114 / 1000 * of_int b"
  have br: "brightness (Some r) (Some g) (Some b) = Some s2"
    by (simp add: brightness_def s2_def s1_def p1_def p2_def p3_def)
  have rr: "0 \<le> (of_int r :: real)" "(of_int r :: real) \<le> 255"
    "0 \<le> (of_int g :: real)" "(of_int g :: real) \<le> 255"
    "0 \<le> (of_int b :: real)" "(of_int b :: real) \<le> 255"
    using assms by simp_all
  have e1: "\<bar>dval p1 - x1\<bar> \<le> 3 / 10 * 255 / 2 ^ 53 + 255 * (1 / 2 ^ 55)"
    unfolding p1_def x1_def using c299_value
    by (intro channel_product_error assms) simp_all
  have e2: "\<bar>dval p2 - x2\<bar> \<le> 6 / 10 * 255 / 2 ^ 53 + 255 * (1 / 2 ^ 54)"
    unfolding p2_def x2_def using c587_value
    by (intro channel_product_error assms) simp_all
  have e3: "\<bar>dval p3 - x3\<bar> \<le> 2 / 10 * 255 / 2 ^ 53 + 255 * (1 / 2 ^ 57)"
    unfolding p3_def x3_def using c114_value
    by (intro channel_product_error assms) simp_all
  have m1: "\<bar>x1 + x2\<bar> \<le> 226" unfolding x1_def x2_def using rr by linarith
  have m2: "\<bar>(x1 + x2) + x3\<bar> \<le> 255" unfolding x1_def x2_def x3_def using rr by linarith
  note f1 = sum_error [OF e1 e2 m1, folded s1_def]
  note f2 = sum_error [OF f1 e3 m2, folded s2_def]
  have lum: "luminance r g b = (x1 + x2) + x3"
    by (simp add: luminance_def x1_def x2_def x3_def field_simps)
  have "\<bar>dval s2 - luminance r g b\<bar> \<le> 1 / 2 ^ 43"
    unfolding lum by (rule order_trans [OF f2]) simp
  then show ?thesis using br by blast
qed

lemma rd_byte:
  assumes "0 \<le> j" "j < int (length d)"
  shows "\<exists>v. rd d j = Some v \<and> 0 \<le> v \<and> v \<le> 255"
proof -
  have "uint (d ! nat j) < 2 ^ LENGTH(8)" by (rule uint_lt2p)
  then show ?thesis using assms by (simp add: rd_def)
qed

lemma binarize_pixel:
  assumes len: "length pixels = 4 * w * h" and q: "inImage w h q"
  shows "\<exists>r g b a v.
           pixelBytes pixels w q = [Some r, Some g, Some b, Some a]
         \<and> brightness (Some r) (Some g) (Some b) = Some v
         \<and> \<bar>dval v - luminance r g b\<bar> \<le> 1 / 2 ^ 43
         \<and> pixelBytes (binarize t pixels) w q = (if dval v < t then blackPixel else whitePixel)"
proof -
  let ?i = "(snd q * int w + fst q) * 4"
  have rng: "0 \<le> ?i + c \<and> ?i + c < int (length pixels)" if "0 \<le> c" "c \<le> 3" for c
    using pixel_byte_range [OF q len that] .
  obtain r where r: "rd pixels ?i = Some r" "0 \<le> r" "r \<le> 255"
    using rd_byte [of ?i pixels] rng [of 0] by auto
  obtain g where g: "rd pixels (?i + 1) = Some g" "0 \<le> g" "g \<le> 255"
    using rd_byte [of "?i + 1" pixels] rng [of 1] by auto
  obtain b where b: "rd pixels (?i + 2) = Some b" "0 \<le> b" "b \<le> 255"
    using rd_byte [of "?i + 2" pixels] rng [of 2] by auto
  obtain a where a: "rd pixels (?i + 3) = Some a"
    using rd_byte [of "?i + 3" pixels] rng [of 3] by auto
  obtain v where v: "brightness (Some r) (Some g) (Some b) = Some v"
    "\<bar>dval v - luminance r g b\<bar> \<le> 1 / 2 ^ 43"
    using brightness_error [OF r(2,3) g(2,3) b(2,3)] by blast
  have bv: "binaryValue t pixels ?i = (if dval v < t then 0 else 255)"
    unfolding binaryValue_def r(1) g(1) b(1) v(1) by simp
  have pb: "pixelBytes pixels w q = [Some r, Some g, Some b, Some a]"
    unfolding pixelBytes_def Let_def r(1) g(1) b(1) a by (rule refl)
  have out: "pixelBytes (binarize t pixels) w q = (if dval v < t then blackPixel else whitePixel)"
    unfolding pixelBytes_binarize [OF q len] bv by simp
  show ?thesis using pb v out by blast
qed

lemma binaryImage_dilationTest: "binaryImage dilationTest 2 2"
proof -
  have "pixelBytes dilationTest 2 (x, y) = blackPixel \<or> pixelBytes dilationTest 2 (x, y) = whitePixel"
    if "0 \<le> x" "x < 2" "0 \<le> y" "y < 2" for x y :: int
  proof -
    have "x = 0 \<or> x = 1" "y = 0 \<or> y = 1" using that by auto
    then show ?thesis
      by (auto simp add: pixelBytes_def dilationTest_def rd_def blackPixel_def whitePixel_def)
  qed
  then show ?thesis by (auto simp add: binaryImage_def inImage_def)
qed

lemma applyDilation_dilationTest:
  "applyDilation dilationTest 2 2 1
     = [0, 0, 0, 255, 0, 0, 0, 255, 0, 0, 0, 255, 255, 255, 255, 255]"
  by (simp add: applyDilation_def dilateScan_def rowMajor_def kernelOffsets_def spreadBlack_def
      copyBack_def dilationTest_def rd_def wr_def clamp8_def Let_def upt_rec upto.simps)

lemma literal_significands:
  "2 ^ 52 \<le> fst c299 \<and> fst c299 < 2 ^ 53 \<and> 2 ^ 52 \<le> fst c587 \<and> fst c587 < 2 ^ 53
   \<and> 2 ^ 52 \<le> fst c114 \<and> fst c114 < 2 ^ 53"
  by (simp add: c299_def c587_def c114_def)

section \<open>Viewport theorems\<close>

text \<open>
  C6. A wheel event at screen point \<open>(sx, sy)\<close> sets the zoom to the current zoom stepped by
  0.1 against the sign of \<open>deltaY\<close> and clamped to \<open>[0.1, 5]\<close>; when that value equals the
  current zoom the whole state is unchanged; and (for a non-zero current zoom, where the
  content point is defined) the content point under \<open>(sx, sy)\<close> is the same before and after
  the event, in exact real arithmetic.
\<close>

theorem handleWheel_anchor:
  fixes rect :: dom_rect and ed :: editor and e :: wheel_event
  defines "s \<equiv> (wheel_clientX e - rect_left rect, wheel_clientY e - rect_top rect)"
  shows "zoom (handleWheel rect ed e) = clampedZoom ed e
       \<and> 1 / 10 \<le> clampedZoom ed e \<and> clampedZoom ed e \<le> 5
       \<and> (deltaY e < 0 \<longrightarrow> clampedZoom ed e = max (1 / 10) (min 5 (zoom ed + 1 / 10)))
       \<and> (deltaY e > 0 \<longrightarrow> clampedZoom ed e = max (1 / 10) (min 5 (zoom ed - 1 / 10)))
       \<and> (clampedZoom ed e = zoom ed \<longrightarrow> handleWheel rect ed e = ed)
       \<and> (zoom ed \<noteq> 0 \<longrightarrow>
            contentPoint (handleWheel rect ed e) s = contentPoint ed s)"
proof -
  have z: "zoom (handleWheel rect ed e) = clampedZoom ed e"
    by (simp add: handleWheel_def clampedZoom_def Let_def)
  have r: "1 / 10 \<le> clampedZoom ed e \<and> clampedZoom ed e \<le> 5"
    by (simp add: clampedZoom_def)
  have up: "deltaY e < 0 \<longrightarrow> clampedZoom ed e = max (1 / 10) (min 5 (zoom ed + 1 / 10))"
    by (simp add: clampedZoom_def)
  have dn: "deltaY e > 0 \<longrightarrow> clampedZoom ed e = max (1 / 10) (min 5 (zoom ed - 1 / 10))"
    by (simp add: clampedZoom_def)
  have n: "clampedZoom ed e = zoom ed \<longrightarrow> handleWheel rect ed e = ed"
    by (simp add: handleWheel_def clampedZoom_def Let_def)
  have a: "zoom ed \<noteq> 0 \<longrightarrow> contentPoint (handleWheel rect ed e) s = contentPoint ed s"
  proof
    assume nz: "zoom ed \<noteq> 0"
    have pos: "clampedZoom ed e \<noteq> 0" using r by linarith
    show "contentPoint (handleWheel rect ed e) s = contentPoint ed s"
    proof (cases "clampedZoom ed e = zoom ed")
      case True
      then show ?thesis using n by simp
    next
      case False
      then show ?thesis using nz pos
        by (simp add: handleWheel_def clampedZoom_def contentPoint_def Let_def s_def)
    qed
  qed
  show ?thesis using z r up dn n a by blast
qed

theorem handleWheel_anchor_witness:
  "zoom wheelTest \<noteq> 0
   \<and> zoom (handleWheel \<lparr>rect_left = 0, rect_top = 0, rect_width = 800, rect_height = 600\<rparr>
        wheelTest \<lparr>deltaY = -100, wheel_clientX = 110, wheel_clientY = 220\<rparr>) = 3 / 5
   \<and> contentPoint (handleWheel \<lparr>rect_left = 0, rect_top = 0, rect_width = 800, rect_height = 600\<rparr>
        wheelTest \<lparr>deltaY = -100, wheel_clientX = 110, wheel_clientY = 220\<rparr>) (110, 220)
     = (200, 400)"
  using handleWheel_anchor [of "\<lparr>rect_left = 0, rect_top = 0, rect_width = 800, rect_height = 600\<rparr>"
      wheelTest "\<lparr>deltaY = -100, wheel_clientX = 110, wheel_clientY = 220\<rparr>"]
  by (simp add: wheelTest_def clampedZoom_def contentPoint_def)

text \<open>
  C8 as stated (after every operation that sets the zoom, \<open>0.1 \<le> zoom \<le> 5\<close>) fails for
  \<^verbatim>\<open>fitToScreen\<close>: a 140 x 140 container and a 2000 x 2000 artwork give zoom 0.05.
\<close>

theorem fitToScreen_zoom_counterexample:
  "\<not> (1 / 10 \<le> zoom (fitToScreen \<lparr>rect_left = 0, rect_top = 0, rect_width = 140, rect_height = 140\<rparr> wheelTest)
      \<and> zoom (fitToScreen \<lparr>rect_left = 0, rect_top = 0, rect_width = 140, rect_height = 140\<rparr> wheelTest) \<le> 5)"
  by (simp add: fitToScreen_def wheelTest_def Let_def)

text \<open>
  C8, amended. Every wheel event leaves the zoom in \<open>[0.1, 5]\<close>, whatever it was before.
  On an artwork of positive width \<open>w\<close> and height \<open>h\<close> in a wrapper of size \<open>W\<close> by \<open>H\<close>,
  \<^verbatim>\<open>fitToScreen\<close> sets the zoom to \<open>min ((W - 40) / w) ((H - 40) / h) 0.9\<close>: it is never
  above 0.9, and it is at least 0.1 exactly when both \<open>(W - 40) / w\<close> and \<open>(H - 40) / h\<close>
  are.
\<close>

theorem zoom_range:
  "1 / 10 \<le> zoom (handleWheel rect ed e) \<and> zoom (handleWheel rect ed e) \<le> 5
   \<and> (0 < lineArtWidth ed \<and> 0 < lineArtHeight ed \<longrightarrow>
        zoom (fitToScreen wrapperRect ed)
          = min (min ((rect_width wrapperRect - 40) / real (lineArtWidth ed))
                     ((rect_height wrapperRect - 40) / real (lineArtHeight ed))) (9 / 10)
        \<and> zoom (fitToScreen wrapperRect ed) \<le> 9 / 10
        \<and> (1 / 10 \<le> zoom (fitToScreen wrapperRect ed)
             \<longleftrightarrow> 1 / 10 \<le> (rect_width wrapperRect - 40) / real (lineArtWidth ed)
                 \<and> 1 / 10 \<le> (rect_height wrapperRect - 40) / real (lineArtHeight ed)))"
proof -
  have z: "zoom (handleWheel rect ed e) = clampedZoom ed e"
    by (simp add: handleWheel_def clampedZoom_def Let_def)
  have "1 / 10 \<le> clampedZoom ed e \<and> clampedZoom ed e \<le> 5"
    by (simp add: clampedZoom_def)
  with z have w: "1 / 10 \<le> zoom (handleWheel rect ed e) \<and> zoom (handleWheel rect ed e) \<le> 5"
    by simp
  have eq: "zoom (fitToScreen wrapperRect ed)
        = min (min ((rect_width wrapperRect - 40) / real (lineArtWidth ed))
                   ((rect_height wrapperRect - 40) / real (lineArtHeight ed))) (9 / 10)"
    by (simp add: fitToScreen_def Let_def)
  have f: "zoom (fitToScreen wrapperRect ed) \<le> 9 / 10"
    unfolding eq by (rule min.cobounded2)
  have g: "1 / 10 \<le> zoom (fitToScreen wrapperRect ed)
         \<longleftrightarrow> 1 / 10 \<le> (rect_width wrapperRect - 40) / real (lineArtWidth ed)
             \<and> 1 / 10 \<le> (rect_height wrapperRect - 40) / real (lineArtHeight ed)"
    unfolding eq by auto
  show ?thesis using w eq f g by blast
qed

theorem zoom_range_witness:
  "0 < lineArtWidth wheelTest \<and> 0 < lineArtHeight wheelTest
   \<and> zoom (fitToScreen \<lparr>rect_left = 0, rect_top = 0, rect_width = 1040, rect_height = 2040\<rparr> wheelTest)
       = min (min ((1040 - 40) / 2000) ((2040 - 40) / 2000)) (9 / 10)
   \<and> zoom (fitToScreen \<lparr>rect_left = 0, rect_top = 0, rect_width = 1040, rect_height = 2040\<rparr> wheelTest)
       = 1 / 2
   \<and> 1 / 10 \<le> zoom (fitToScreen \<lparr>rect_left = 0, rect_top = 0, rect_width = 1040, rect_height = 2040\<rparr> wheelTest)"
proof -
  have p: "0 < lineArtWidth wheelTest \<and> 0 < lineArtHeight wheelTest"
    by (simp add: wheelTest_def)
  have e: "zoom (fitToScreen \<lparr>rect_left = 0, rect_top = 0, rect_width = 1040, rect_height = 2040\<rparr> wheelTest)
      = min (min ((rect_width \<lparr>rect_left = 0, rect_top = 0, rect_width = 1040, rect_height = 2040\<rparr> - 40)
                    / real (lineArtWidth wheelTest))
                 ((rect_height \<lparr>rect_left = 0, rect_top = 0, rect_width = 1040, rect_height = 2040\<rparr> - 40)
                    / real (lineArtHeight wheelTest))) (9 / 10)"
    using zoom_range [where ed = wheelTest
        and wrapperRect = "\<lparr>rect_left = 0, rect_top = 0, rect_width = 1040, rect_height = 2040\<rparr>",
        THEN conjunct2, THEN conjunct2, THEN mp, OF p, THEN conjunct1] .
  show ?thesis using p e by (simp add: wheelTest_def)
qed

section \<open>Flood fill theorems\<close>

text \<open>
  C1. A flood fill changes nothing but the canvas pixels and keeps their number. Every byte
  it changes belongs to a pixel that lies inside the canvas, is not a boundary pixel, and is
  reached from the (rounded) seed by a 4-connected path of pixels inside the canvas that are
  not boundary pixels. A fill whose seed is outside the canvas or on a boundary pixel
  returns the editor unchanged.
\<close>

theorem floodFill_containment:
  "length (ctx_data (floodFill ed sx sy c u)) = length (ctx_data ed)
   \<and> floodFill ed sx sy c u = ed\<lparr>ctx_data := ctx_data (floodFill ed sx sy c u)\<rparr>
   \<and> (\<forall>j. rd (ctx_data (floodFill ed sx sy c u)) j \<noteq> rd (ctx_data ed) j \<longrightarrow>
         (\<exists>p. j div 4 = pixelIndex ed p \<and> inCanvas ed p \<and> \<not> boundaryAt ed p
              \<and> connected4 (openPixel ed) (round sx, round sy) p))
   \<and> (\<not> inCanvas ed (round sx, round sy) \<or> boundaryAt ed (round sx, round sy)
        \<longrightarrow> floodFill ed sx sy c u = ed)"
proof -
  let ?seed = "(round sx, round sy)"
  let ?t = "targetAt (ctx_data ed) (pixelIndex ed ?seed * 4)"
  have len: "length (ctx_data (floodFill ed sx sy c u)) = length (ctx_data ed)"
    by (simp add: floodFill_unfold)
  have frame: "floodFill ed sx sy c u = ed\<lparr>ctx_data := ctx_data (floodFill ed sx sy c u)\<rparr>"
    by (simp add: floodFill_unfold)
  have chg: "\<forall>j. rd (ctx_data (floodFill ed sx sy c u)) j \<noteq> rd (ctx_data ed) j \<longrightarrow>
         (\<exists>p. j div 4 = pixelIndex ed p \<and> inCanvas ed p \<and> \<not> boundaryAt ed p
              \<and> connected4 (openPixel ed) ?seed p)"
  proof (intro allI impI)
    fix j assume "rd (ctx_data (floodFill ed sx sy c u)) j \<noteq> rd (ctx_data ed) j"
    then obtain p where p: "j div 4 = pixelIndex ed p"
      "connected4 (fillable ed (ctx_data ed) ?t) ?seed p"
      using floodFill_changed by blast
    have o: "connected4 (openPixel ed) ?seed p"
      by (rule connected4_mono [OF p(2)]) (rule fillable_open)
    have "openPixel ed p" using connected4_ok [OF o] .
    then show "\<exists>p. j div 4 = pixelIndex ed p \<and> inCanvas ed p \<and> \<not> boundaryAt ed p
              \<and> connected4 (openPixel ed) ?seed p"
      using p(1) o unfolding openPixel_def by blast
  qed
  have noop: "\<not> inCanvas ed ?seed \<or> boundaryAt ed ?seed \<longrightarrow> floodFill ed sx sy c u = ed"
  proof
    assume "\<not> inCanvas ed ?seed \<or> boundaryAt ed ?seed"
    then show "floodFill ed sx sy c u = ed"
    proof
      assume "\<not> inCanvas ed ?seed"
      then have "traversal ed ?seed = []"
        unfolding traversal_def by (simp add: fillLoop_out fillLoop.simps(1))
      then show ?thesis by (simp add: floodFill_unfold)
    next
      assume "boundaryAt ed ?seed"
      then show ?thesis by (simp add: floodFill_unfold)
    qed
  qed
  show ?thesis using len frame chg noop by blast
qed

theorem floodFill_containment_witness:
  "rd (ctx_data (floodFill fillTest 0 0 ''#e63946'' False)) 4 = Some 230
   \<and> rd (ctx_data fillTest) 4 = Some 255
   \<and> (\<exists>p. 4 div 4 = pixelIndex fillTest p \<and> inCanvas fillTest p \<and> \<not> boundaryAt fillTest p
          \<and> connected4 (openPixel fillTest) (round (0::real), round (0::real)) p)
   \<and> boundaryAt fillTest (round (2::real), round (0::real))
   \<and> floodFill fillTest 2 0 ''#e63946'' False = fillTest"
proof -
  have a: "rd (ctx_data (floodFill fillTest 0 0 ''#e63946'' False)) 4 = Some 230"
    by (simp add: fillTest_fill rd_def)
  have b: "rd (ctx_data fillTest) 4 = Some 255"
    by (simp add: fillTest_def rd_def)
  have c: "boundaryAt fillTest (round (2::real), round (0::real))"
    by (simp add: boundaryAt_def isLineBoundary_def fillTest_def rd_def)
  note T = floodFill_containment [of fillTest 0 0 "''#e63946''" False]
  have imp: "rd (ctx_data (floodFill fillTest 0 0 ''#e63946'' False)) 4 \<noteq> rd (ctx_data fillTest) 4
      \<longrightarrow> (\<exists>p. 4 div 4 = pixelIndex fillTest p \<and> inCanvas fillTest p \<and> \<not> boundaryAt fillTest p
          \<and> connected4 (openPixel fillTest) (round (0::real), round (0::real)) p)"
    by (rule spec [OF T [THEN conjunct2, THEN conjunct2, THEN conjunct1]])
  have ex: "\<exists>p. 4 div 4 = pixelIndex fillTest p \<and> inCanvas fillTest p \<and> \<not> boundaryAt fillTest p
          \<and> connected4 (openPixel fillTest) (round (0::real), round (0::real)) p"
    using imp a b by simp
  have n: "floodFill fillTest 2 0 ''#e63946'' False = fillTest"
    using floodFill_containment [of fillTest 2 0 "''#e63946''" False,
        THEN conjunct2, THEN conjunct2, THEN conjunct2] c by simp
  show ?thesis using a b ex c n by simp
qed

text \<open>
  C2. The loop of the flood fill takes the head of a first-in first-out queue; the pixel
  joins the fill set, is marked visited and has its four neighbours appended exactly when it
  lies inside the canvas, has not been visited, is not a boundary pixel and each of its red,
  green and blue channels is within 32 of the seed pixel's colour before the fill
  (\<open>matching\<close>); otherwise it is dropped (and marked visited when inside the canvas). The
  resulting fill set holds each pixel once and is exactly the set of pixels 4-connected to
  the seed through matching pixels; when the fill is not a no-op at the seed, the bytes of
  these pixels become the fill colour with alpha 255 and all other bytes keep their value.
  The alpha channel plays no part in matching: buffers that agree on all red, green and
  blue bytes give the same connected set.
\<close>

theorem floodFill_traversal:
  fixes ed :: editor and sx sy :: real and c :: string and u :: bool
  defines "seed \<equiv> (round sx, round sy)"
  defines "data \<equiv> ctx_data ed"
  defines "seedColor \<equiv> targetAt (ctx_data ed) (pixelIndex ed (round sx, round sy) * 4)"
  shows "(\<forall>t p q V P. fillLoop ed data t (p # q) V P =
            (if inCanvas ed p \<and> pixelIndex ed p \<notin> V \<and> matching ed data t p
             then fillLoop ed data t (q @ neighbours p) (insert (pixelIndex ed p) V)
                    (P @ [mkPixel ed data p])
             else fillLoop ed data t q (if inCanvas ed p then insert (pixelIndex ed p) V else V) P))
       \<and> set (traversal ed seed) = mkPixel ed data ` {p. connected4 (matching ed data seedColor) seed p}
       \<and> distinct (map pos (traversal ed seed))
       \<and> (\<not> boundaryAt ed seed \<and> \<not> alreadyFilled data (pixelIndex ed seed * 4) c \<longrightarrow>
            (\<forall>j. rd (ctx_data (floodFill ed sx sy c u)) j =
               (if 0 \<le> j \<and> j < int (length data)
                   \<and> (\<exists>p. connected4 (matching ed data seedColor) seed p \<and> j div 4 = pixelIndex ed p)
                then Some (channel (parseInt16 (slice_string c 1 3)) (parseInt16 (slice_string c 3 5))
                             (parseInt16 (slice_string c 5 7)) (j mod 4))
                else rd data j)))
       \<and> (\<forall>data'. (\<forall>j. j mod 4 \<noteq> 3 \<longrightarrow> rd data' j = rd data j) \<longrightarrow>
            connected4 (matching ed data' seedColor) seed = connected4 (matching ed data seedColor) seed)"
proof -
  have step: "\<forall>t p q V P. fillLoop ed data t (p # q) V P =
            (if inCanvas ed p \<and> pixelIndex ed p \<notin> V \<and> matching ed data t p
             then fillLoop ed data t (q @ neighbours p) (insert (pixelIndex ed p) V)
                    (P @ [mkPixel ed data p])
             else fillLoop ed data t q (if inCanvas ed p then insert (pixelIndex ed p) V else V) P)"
    using fillLoop_step by blast
  have sets: "set (traversal ed seed) = mkPixel ed data ` {p. connected4 (matching ed data seedColor) seed p}"
    unfolding seed_def data_def seedColor_def
    using traversal_set [of ed "(round sx, round sy)"] by (simp add: fillable_matching)
  have dist: "distinct (map pos (traversal ed seed))"
    unfolding traversal_def by (rule fillLoop_distinct)
  have bytes: "\<not> boundaryAt ed seed \<and> \<not> alreadyFilled data (pixelIndex ed seed * 4) c \<longrightarrow>
            (\<forall>j. rd (ctx_data (floodFill ed sx sy c u)) j =
               (if 0 \<le> j \<and> j < int (length data)
                   \<and> (\<exists>p. connected4 (matching ed data seedColor) seed p \<and> j div 4 = pixelIndex ed p)
                then Some (channel (parseInt16 (slice_string c 1 3)) (parseInt16 (slice_string c 3 5))
                             (parseInt16 (slice_string c 5 7)) (j mod 4))
                else rd data j))"
  proof (intro impI allI)
    fix j
    assume a: "\<not> boundaryAt ed seed \<and> \<not> alreadyFilled data (pixelIndex ed seed * 4) c"
    have pos: "pos ` set (traversal ed seed)
        = (\<lambda>p. pixelIndex ed p * 4) ` {p. connected4 (matching ed data seedColor) seed p}"
      unfolding sets by (simp add: image_image)
    have mem: "j - j mod 4 \<in> pos ` set (traversal ed seed)
        \<longleftrightarrow> (\<exists>p. connected4 (matching ed data seedColor) seed p \<and> j div 4 = pixelIndex ed p)"
      unfolding pos using pixel_of_byte [of j] by auto
    show "rd (ctx_data (floodFill ed sx sy c u)) j =
               (if 0 \<le> j \<and> j < int (length data)
                   \<and> (\<exists>p. connected4 (matching ed data seedColor) seed p \<and> j div 4 = pixelIndex ed p)
                then Some (channel (parseInt16 (slice_string c 1 3)) (parseInt16 (slice_string c 3 5))
                             (parseInt16 (slice_string c 5 7)) (j mod 4))
                else rd data j)"
    proof (cases "traversal ed seed = []")
      case True
      then have eq: "floodFill ed sx sy c u = ed" unfolding seed_def by (simp add: floodFill_unfold)
      have ne: "\<not> (0 \<le> j \<and> j < int (length data)
          \<and> (\<exists>p. connected4 (matching ed data seedColor) seed p \<and> j div 4 = pixelIndex ed p))"
        using mem True by simp
      have "(if 0 \<le> j \<and> j < int (length data)
                   \<and> (\<exists>p. connected4 (matching ed data seedColor) seed p \<and> j div 4 = pixelIndex ed p)
                then Some (channel (parseInt16 (slice_string c 1 3)) (parseInt16 (slice_string c 3 5))
                             (parseInt16 (slice_string c 5 7)) (j mod 4))
                else rd data j) = rd data j"
        using ne by (rule if_not_P)
      then show ?thesis unfolding eq data_def by (rule sym)
    next
      case False
      then have d: "ctx_data (floodFill ed sx sy c u)
          = foldl (\<lambda>d pixel. putPixel d (pos pixel) (parseInt16 (slice_string c 1 3))
                        (parseInt16 (slice_string c 3 5)) (parseInt16 (slice_string c 5 7)))
               data (traversal ed seed)"
        using a unfolding seed_def data_def by (simp add: floodFill_unfold)
      have "rd (foldl (\<lambda>d pixel. putPixel d (pos pixel) (parseInt16 (slice_string c 1 3))
                        (parseInt16 (slice_string c 3 5)) (parseInt16 (slice_string c 5 7)))
               data (traversal ed seed)) j
          = (if 0 \<le> j \<and> j < int (length data) \<and> j - j mod 4 \<in> pos ` set (traversal ed seed)
             then Some (channel (parseInt16 (slice_string c 1 3)) (parseInt16 (slice_string c 3 5))
                             (parseInt16 (slice_string c 5 7)) (j mod 4))
             else rd data j)"
        by (rule rd_paint [OF traversal_aligned [of ed seed]])
      then show ?thesis unfolding d mem .
    qed
  qed
  have alpha: "\<forall>data'. (\<forall>j. j mod 4 \<noteq> 3 \<longrightarrow> rd data' j = rd data j) \<longrightarrow>
            connected4 (matching ed data' seedColor) seed = connected4 (matching ed data seedColor) seed"
  proof (intro allI impI)
    fix data' assume "\<forall>j. j mod 4 \<noteq> 3 \<longrightarrow> rd data' j = rd data j"
    then have "matching ed data' seedColor = matching ed data seedColor"
      using withinTolerance_alpha [of data' data seedColor] by (intro ext) (simp add: matching_def)
    then show "connected4 (matching ed data' seedColor) seed = connected4 (matching ed data seedColor) seed"
      by simp
  qed
  show ?thesis using step sets dist bytes alpha by blast
qed

theorem floodFill_traversal_witness:
  "\<not> boundaryAt fillTest (round (0::real), round (0::real))
   \<and> \<not> alreadyFilled (ctx_data fillTest) (pixelIndex fillTest (round (0::real), round (0::real)) * 4) ''#e63946''
   \<and> mkPixel fillTest (ctx_data fillTest) `
        {p. connected4 (matching fillTest (ctx_data fillTest)
              (targetAt (ctx_data fillTest) (pixelIndex fillTest (round (0::real), round (0::real)) * 4)))
              (round (0::real), round (0::real)) p}
       = {\<lparr>pos = 0, origR = Some 255, origG = Some 255, origB = Some 255\<rparr>,
          \<lparr>pos = 4, origR = Some 255, origG = Some 255, origB = Some 255\<rparr>}
   \<and> rd (ctx_data (floodFill fillTest 0 0 ''#e63946'' False)) 8 = rd (ctx_data fillTest) 8"
proof -
  note T = floodFill_traversal [of fillTest 0 0 "''#e63946''" False]
  have i: "pixelIndex fillTest (round (0::real), round (0::real)) * 4 = 0"
    by (simp add: pixelIndex_def)
  have a: "\<not> boundaryAt fillTest (round (0::real), round (0::real))"
    using fillTest_start(1) by simp
  have b: "\<not> alreadyFilled (ctx_data fillTest)
      (pixelIndex fillTest (round (0::real), round (0::real)) * 4) ''#e63946''"
    using fillTest_start(2) i by simp
  have s: "set (traversal fillTest (round (0::real), round (0::real)))
      = mkPixel fillTest (ctx_data fillTest) `
        {p. connected4 (matching fillTest (ctx_data fillTest)
              (targetAt (ctx_data fillTest) (pixelIndex fillTest (round (0::real), round (0::real)) * 4)))
              (round (0::real), round (0::real)) p}"
    using T [THEN conjunct2, THEN conjunct1] .
  have c: "mkPixel fillTest (ctx_data fillTest) `
        {p. connected4 (matching fillTest (ctx_data fillTest)
              (targetAt (ctx_data fillTest) (pixelIndex fillTest (round (0::real), round (0::real)) * 4)))
              (round (0::real), round (0::real)) p}
       = {\<lparr>pos = 0, origR = Some 255, origG = Some 255, origB = Some 255\<rparr>,
          \<lparr>pos = 4, origR = Some 255, origG = Some 255, origB = Some 255\<rparr>}"
    unfolding s [symmetric] using fillTest_traversal by simp
  have d: "rd (ctx_data (floodFill fillTest 0 0 ''#e63946'' False)) 8 = rd (ctx_data fillTest) 8"
  proof -
    have "rd (ctx_data (floodFill fillTest 0 0 ''#e63946'' False)) 8 = Some 255"
      by (simp add: fillTest_fill rd_def)
    moreover have "rd (ctx_data fillTest) 8 = Some 255"
      by (simp add: fillTest_def rd_def)
    ultimately show ?thesis by simp
  qed
  show ?thesis using a b c d by blast
qed

text \<open>
  C5. On a surface whose buffer holds four bytes per pixel, filling twice in a row at the
  same seed with the same colour \<^verbatim>\<open>#rrggbb\<close> gives the same editor state as filling once. In
  particular, when the seed pixel already has exactly the fill colour with alpha 255, the
  fill returns the editor unchanged.
\<close>

theorem floodFill_idempotent:
  assumes len: "length (ctx_data ed) = 4 * canvas_width ed * canvas_height ed"
    and col: "hexColor c"
  shows "floodFill (floodFill ed sx sy c u) sx sy c u' = floodFill ed sx sy c u
       \<and> (alreadyFilled (ctx_data ed) (pixelIndex ed (round sx, round sy) * 4) c
            \<longrightarrow> floodFill ed sx sy c u = ed)"
proof -
  let ?seed = "(round sx, round sy)"
  let ?sp = "pixelIndex ed ?seed * 4"
  let ?R = "parseInt16 (slice_string c 1 3)"
  let ?G = "parseInt16 (slice_string c 3 5)"
  let ?B = "parseInt16 (slice_string c 5 7)"
  let ?D = "foldl (\<lambda>d pixel. putPixel d (pos pixel) ?R ?G ?B) (ctx_data ed) (traversal ed ?seed)"
  obtain r g b where rgb: "?R = Some r" "?G = Some g" "?B = Some b"
    "0 \<le> r" "r \<le> 255" "0 \<le> g" "g \<le> 255" "0 \<le> b" "b \<le> 255"
    using hexColor_parse [OF col] by blast
  have second: "alreadyFilled (ctx_data ed) ?sp c \<longrightarrow> floodFill ed sx sy c u = ed"
    by (simp add: floodFill_unfold)
  have first: "floodFill (floodFill ed sx sy c u) sx sy c u' = floodFill ed sx sy c u"
  proof (cases "boundaryAt ed ?seed \<or> alreadyFilled (ctx_data ed) ?sp c \<or> traversal ed ?seed = []")
    case True
    then have "floodFill ed sx sy c u = ed" by (simp add: floodFill_unfold)
    then show ?thesis using floodFill_unfill_irrelevant [of ed sx sy c u' u] by simp
  next
    case False
    then have e1: "floodFill ed sx sy c u = ed\<lparr>ctx_data := ?D\<rparr>"
      by (simp add: floodFill_unfold)
    have s: "inCanvas ed ?seed" "?sp \<in> pos ` set (traversal ed ?seed)"
      using seed_in_traversal [of ed ?seed] False by simp_all
    have rng: "0 \<le> ?sp" "?sp + 3 < int (length (ctx_data ed))"
      using seed_bytes_in_range [OF s(1) len] by simp_all
    have byte: "rd ?D (?sp + k) = Some (channel ?R ?G ?B k)" if "k \<in> {0, 1, 2, 3}" for k
    proof -
      have m: "(?sp + k) mod 4 = k" "?sp + k - k = ?sp" using that by auto
      have "0 \<le> ?sp + k \<and> ?sp + k < int (length (ctx_data ed))" using rng that by auto
      then show ?thesis
        using rd_paint [OF traversal_aligned [of ed ?seed], of ?R ?G ?B "ctx_data ed" "?sp + k"] s(2) m
        by simp
    qed
    have "rd ?D ?sp = Some r" "rd ?D (?sp + 1) = Some g" "rd ?D (?sp + 2) = Some b"
      "rd ?D (?sp + 3) = Some 255"
      using byte [of 0] byte [of 1] byte [of 2] byte [of 3] channel_values [OF rgb(4-9)] rgb(1-3)
      by simp_all
    then have "alreadyFilled ?D ?sp c"
      using rgb(1-3) by (simp add: alreadyFilled_def strictEq_def)
    then have "floodFill (ed\<lparr>ctx_data := ?D\<rparr>) sx sy c u' = ed\<lparr>ctx_data := ?D\<rparr>"
      by (simp add: floodFill_unfold pixelIndex_def)
    then show ?thesis using e1 by simp
  qed
  show ?thesis using first second by blast
qed

theorem floodFill_idempotent_witness:
  "length (ctx_data fillTest) = 4 * canvas_width fillTest * canvas_height fillTest
   \<and> hexColor ''#e63946''
   \<and> ctx_data (floodFill fillTest 0 0 ''#e63946'' False)
       = [230, 57, 70, 255, 230, 57, 70, 255, 255, 255, 255, 255]
   \<and> floodFill (floodFill fillTest 0 0 ''#e63946'' False) 0 0 ''#e63946'' False
       = floodFill fillTest 0 0 ''#e63946'' False"
proof -
  have l: "length (ctx_data fillTest) = 4 * canvas_width fillTest * canvas_height fillTest"
    by (simp add: fillTest_def)
  show ?thesis
    using floodFill_idempotent [OF l hexColor_e63946, of 0 0 False False] l hexColor_e63946
      fillTest_fill
    by simp
qed

section \<open>Pointer handler theorems\<close>

text \<open>
  C7 as stated (a brush or eraser stroke leaves the surface pixels at boundary positions
  unchanged) fails: with the boundary at pixel (0, 0) and a brush stroke of width 10 from
  (0.5, 0.5) to (1.5, 0.5), the red byte of that pixel goes from 255 to 230.
\<close>

theorem stroke_over_boundary_counterexample:
  "isLineBoundary strokeTest 0 0
   \<and> rd (ctx_data strokeTest) 0 = Some 255
   \<and> rd (ctx_data (handleMove discStroke testRect
          (handleStart testRect strokeTest (press (1 / 2) (1 / 2) 0)) (press (3 / 2) (1 / 2) 0))) 0
       = Some 230"
proof -
  have a: "isLineBoundary strokeTest 0 0"
    by (simp add: isLineBoundary_def strokeTest_def rd_def)
  have b: "rd (ctx_data strokeTest) 0 = Some 255"
    by (simp add: strokeTest_def rd_def)
  have c: "rd (ctx_data (handleMove discStroke testRect
          (handleStart testRect strokeTest (press (1 / 2) (1 / 2) 0)) (press (3 / 2) (1 / 2) 0))) 0
       = Some 230"
    by (simp add: strokeTest_move rd_def)
  show ?thesis using a b c by simp
qed

text \<open>
  C7, amended. In brush or eraser mode no handler reads the boundary mask. For any
  rasterizer, a press, a move, a release and a whole interaction (press, moves, release)
  on an editor with another mask give the same state but for the mask. After a move of a
  drawing interaction the pixels are exactly what the rasterizer returns for the path
  extended by the event's point (when that point is finite), the line width, the stroke
  style, the canvas size and the current pixels: every byte, of a boundary pixel or not,
  takes the rasterizer's value.
\<close>

theorem stroke_ignores_mask:
  assumes "mode ed = Brush \<or> mode ed = Eraser"
  shows "handleStart rect (ed\<lparr>lineArtData := m\<rparr>) e = (handleStart rect ed e)\<lparr>lineArtData := m\<rparr>
       \<and> handleMove stroke rect (ed\<lparr>lineArtData := m\<rparr>) e
           = (handleMove stroke rect ed e)\<lparr>lineArtData := m\<rparr>
       \<and> handleEnd (ed\<lparr>lineArtData := m\<rparr>) = (handleEnd ed)\<lparr>lineArtData := m\<rparr>
       \<and> handleEnd (drag stroke (handleStart rect (ed\<lparr>lineArtData := m\<rparr>) e) moves)
           = (handleEnd (drag stroke (handleStart rect ed e) moves))\<lparr>lineArtData := m\<rparr>
       \<and> (isDrawing ed \<and> \<not> isPanning ed \<longrightarrow>
            (\<forall>j. rd (ctx_data (handleMove stroke rect ed e)) j
               = rd (stroke (lineTo (ctx_path ed) (getCoords rect ed e)) (ctx_lineWidth ed)
                      (ctx_strokeStyle ed) (canvas_width ed) (canvas_height ed) (ctx_data ed)) j))"
proof -
  have s: "handleStart rect (ed\<lparr>lineArtData := m\<rparr>) e = (handleStart rect ed e)\<lparr>lineArtData := m\<rparr>"
    using assms by (auto simp add: handleStart_def getCoords_def Let_def)
  have mv: "handleMove stroke rect (ed\<lparr>lineArtData := m\<rparr>) e
           = (handleMove stroke rect ed e)\<lparr>lineArtData := m\<rparr>"
    by (rule handleMove_mask)
  have en: "handleEnd (ed\<lparr>lineArtData := m\<rparr>) = (handleEnd ed)\<lparr>lineArtData := m\<rparr>"
    by (rule handleEnd_mask)
  have whole: "handleEnd (drag stroke (handleStart rect (ed\<lparr>lineArtData := m\<rparr>) e) moves)
           = (handleEnd (drag stroke (handleStart rect ed e) moves))\<lparr>lineArtData := m\<rparr>"
    unfolding s drag_mask by (rule handleEnd_mask)
  have p: "isDrawing ed \<and> \<not> isPanning ed \<longrightarrow>
            (\<forall>j. rd (ctx_data (handleMove stroke rect ed e)) j
               = rd (stroke (lineTo (ctx_path ed) (getCoords rect ed e)) (ctx_lineWidth ed)
                      (ctx_strokeStyle ed) (canvas_width ed) (canvas_height ed) (ctx_data ed)) j)"
    using assms by (auto simp add: handleMove_def Let_def)
  show ?thesis using s mv en whole p by blast
qed

theorem stroke_ignores_mask_witness:
  "(mode strokeTest = Brush \<or> mode strokeTest = Eraser)
   \<and> ctx_data (handleEnd (drag discStroke
        (handleStart testRect (strokeTest\<lparr>lineArtData := None\<rparr>) (press (1 / 2) (1 / 2) 0))
        [(testRect, press (3 / 2) (1 / 2) 0)]))
      = [230, 57, 70, 255, 230, 57, 70, 255]"
proof -
  have m: "mode strokeTest = Brush \<or> mode strokeTest = Eraser" by (simp add: strokeTest_def)
  have w: "handleEnd (drag discStroke
        (handleStart testRect (strokeTest\<lparr>lineArtData := None\<rparr>) (press (1 / 2) (1 / 2) 0))
        [(testRect, press (3 / 2) (1 / 2) 0)])
      = (handleEnd (drag discStroke (handleStart testRect strokeTest (press (1 / 2) (1 / 2) 0))
          [(testRect, press (3 / 2) (1 / 2) 0)]))\<lparr>lineArtData := None\<rparr>"
    using stroke_ignores_mask [OF m, where stroke = discStroke and rect = testRect and m = None
        and e = "press (1 / 2) (1 / 2) 0" and moves = "[(testRect, press (3 / 2) (1 / 2) 0)]",
        THEN conjunct2, THEN conjunct2, THEN conjunct2, THEN conjunct1] .
  have d: "ctx_data (handleEnd (drag discStroke (handleStart testRect strokeTest (press (1 / 2) (1 / 2) 0))
          [(testRect, press (3 / 2) (1 / 2) 0)]))
      = [230, 57, 70, 255, 230, 57, 70, 255]"
    using strokeTest_move by (simp add: drag_def handleEnd_def Let_def)
  show ?thesis unfolding w using m d by simp
qed

text \<open>
  C9. \<^verbatim>\<open>handleEnd\<close> calls the installed update callback on every interaction end,
  whatever the mode and whether or not anything was drawn, and changes no pixel: in pan
  mode, a press, a move and a release still count one update.
\<close>

theorem handleEnd_always_notifies:
  assumes "onUpdate ed"
  shows "updates (handleEnd ed) = updates ed + 1 \<and> ctx_data (handleEnd ed) = ctx_data ed"
  using assms by (simp add: handleEnd_def Let_def)

theorem handleEnd_always_notifies_witness:
  "mode panTest = Pan
   \<and> onUpdate (handleMove discStroke testRect (handleStart testRect panTest (press 0 0 0)) (press 1 0 0))
   \<and> ctx_data (handleEnd (handleMove discStroke testRect
         (handleStart testRect panTest (press 0 0 0)) (press 1 0 0))) = ctx_data panTest
   \<and> updates (handleEnd (handleMove discStroke testRect
         (handleStart testRect panTest (press 0 0 0)) (press 1 0 0))) = updates panTest + 1"
proof -
  have m: "handleMove discStroke testRect (handleStart testRect panTest (press 0 0 0)) (press 1 0 0)
      = panTest\<lparr>isPanning := True, startPan := (0, 0), pan := (1, 0)\<rparr>"
    by (simp add: panTest_def strokeTest_def handleStart_def handleMove_def press_def)
  have u: "onUpdate (panTest\<lparr>isPanning := True, startPan := (0, 0), pan := (1, 0)\<rparr>)"
    by (simp add: panTest_def strokeTest_def)
  have p: "mode panTest = Pan" by (simp add: panTest_def)
  show ?thesis
    unfolding m using handleEnd_always_notifies [OF u] u p by simp
qed

text \<open>
  C10. In any tool mode, a press with the middle button (that is not a secondary touch
  contact) starts a pan drag: after any moves the editor is the one before the press with
  \<open>isPanning\<close> set, the drag anchor recorded, and the pan translated by the displacement of
  the pointer from the press to the last move; pixels and path are untouched, also after the
  release.
\<close>

theorem middle_button_pans:
  assumes mid: "button e = 1"
    and prim: "\<not> (pointerType e = ''touch'' \<and> \<not> isPrimary e)"
  shows "drag stroke (handleStart rect ed e) moves
       = ed\<lparr>isPanning := True,
            startPan := (clientX e - fst (pan ed), clientY e - snd (pan ed)),
            pan := (if moves = [] then pan ed
                    else (fst (pan ed) + (clientX (snd (last moves)) - clientX e),
                          snd (pan ed) + (clientY (snd (last moves)) - clientY e)))\<rparr>
       \<and> ctx_data (handleEnd (drag stroke (handleStart rect ed e) moves)) = ctx_data ed"
proof -
  let ?s = "ed\<lparr>isPanning := True, startPan := (clientX e - fst (pan ed), clientY e - snd (pan ed))\<rparr>"
  have st: "handleStart rect ed e = ?s"
    using mid prim by (auto simp add: handleStart_def)
  have "isPanning ?s" by simp
  then have d: "drag stroke (handleStart rect ed e) moves
       = ed\<lparr>isPanning := True,
            startPan := (clientX e - fst (pan ed), clientY e - snd (pan ed)),
            pan := (if moves = [] then pan ed
                    else (fst (pan ed) + (clientX (snd (last moves)) - clientX e),
                          snd (pan ed) + (clientY (snd (last moves)) - clientY e)))\<rparr>"
    unfolding st using drag_panning [of ?s stroke moves]
    by (cases "moves = []") (simp_all add: algebra_simps)
  have "ctx_data (handleEnd (drag stroke (handleStart rect ed e) moves)) = ctx_data ed"
    unfolding d by (simp add: handleEnd_def Let_def)
  then show ?thesis using d by simp
qed

theorem middle_button_pans_witness:
  "button (press 5 7 1) = 1
   \<and> \<not> (pointerType (press 5 7 1) = ''touch'' \<and> \<not> isPrimary (press 5 7 1))
   \<and> mode strokeTest = Brush
   \<and> drag discStroke (handleStart testRect strokeTest (press 5 7 1))
        [(testRect, press 6 9 1), (testRect, press 8 4 1)]
      = strokeTest\<lparr>isPanning := True, startPan := (5, 7), pan := (3, - 3)\<rparr>"
proof -
  have a: "button (press 5 7 1) = 1" by (simp add: press_def)
  have b: "\<not> (pointerType (press 5 7 1) = ''touch'' \<and> \<not> isPrimary (press 5 7 1))"
    by (simp add: press_def)
  have c: "mode strokeTest = Brush" by (simp add: strokeTest_def)
  have p: "pan strokeTest = (0, 0)" by (simp add: strokeTest_def)
  show ?thesis
    using middle_button_pans [OF a b, where stroke = discStroke and rect = testRect
        and ed = strokeTest and moves = "[(testRect, press 6 9 1), (testRect, press 8 4 1)]",
        THEN conjunct1] a b c p
    by (simp add: press_def)
qed

section \<open>Line-art theorems\<close>

text \<open>
  C3 as stated (a pixel becomes black iff its luminance is strictly less than the threshold)
  fails: the pixel (114, 244, 199) has luminance exactly 200, which is not below the
  threshold 200; the code computes \<^verbatim>\<open>0.299 * 114 + 0.587 * 244 + 0.114 * 199\<close> in double
  precision, gets \<open>7036874417766399 / 2 ^ 45\<close> (printed \<^verbatim>\<open>199.99999999999997\<close>), and makes the
  pixel black.
\<close>

theorem binarize_boundary_counterexample:
  "luminance 114 244 199 = 200
   \<and> brightness (Some 114) (Some 244) (Some 199) = Some (7036874417766399, - 45)
   \<and> dval (7036874417766399, - 45) < 200
   \<and> pixelBytes (createHighQualityLineArt [114, 244, 199, 255] 1 1 200 0) 1 (0, 0) = blackPixel"
  by (simp add: luminance_def createHighQualityLineArt_def binarize_boundary brightness_boundary
      pixelBytes_def rd_def blackPixel_def dval_def)

text \<open>
  C3, amended. Without dilation \<^verbatim>\<open>createHighQualityLineArt\<close> returns the binarized pixels.
  Every pixel of the image becomes pure black when the double-precision value of
  \<^verbatim>\<open>0.299 * R + 0.587 * G + 0.114 * B\<close> (each product and each sum rounded to nearest) is
  strictly below the threshold, and pure white otherwise, with alpha 255. That value is
  within \<open>2 ^ - 43\<close> of the luminance, so a pixel whose luminance is more than \<open>2 ^ - 43\<close>
  below the threshold is black, and one whose luminance is at least \<open>2 ^ - 43\<close> above the
  threshold is white.
\<close>

theorem binarize_threshold:
  assumes "length pixels = 4 * w * h" and "inImage w h q"
  shows "createHighQualityLineArt pixels w h t 0 = binarize t pixels
       \<and> (\<exists>r g b a v.
            pixelBytes pixels w q = [Some r, Some g, Some b, Some a]
          \<and> brightness (Some r) (Some g) (Some b) = Some v
          \<and> pixelBytes (binarize t pixels) w q = (if dval v < t then blackPixel else whitePixel)
          \<and> \<bar>dval v - luminance r g b\<bar> \<le> 1 / 2 ^ 43
          \<and> (luminance r g b < t - 1 / 2 ^ 43 \<longrightarrow> pixelBytes (binarize t pixels) w q = blackPixel)
          \<and> (t + 1 / 2 ^ 43 \<le> luminance r g b \<longrightarrow> pixelBytes (binarize t pixels) w q = whitePixel))"
proof -
  obtain r g b a v where p:
    "pixelBytes pixels w q = [Some r, Some g, Some b, Some a]"
    "brightness (Some r) (Some g) (Some b) = Some v"
    "\<bar>dval v - luminance r g b\<bar> \<le> 1 / 2 ^ 43"
    "pixelBytes (binarize t pixels) w q = (if dval v < t then blackPixel else whitePixel)"
    using binarize_pixel [OF assms, of t] by blast
  have lo: "pixelBytes (binarize t pixels) w q = blackPixel" if "luminance r g b < t - 1 / 2 ^ 43"
  proof -
    have "dval v < t" using p(3) that by linarith
    then show ?thesis using p(4) by simp
  qed
  have hi: "pixelBytes (binarize t pixels) w q = whitePixel" if "t + 1 / 2 ^ 43 \<le> luminance r g b"
  proof -
    have "\<not> dval v < t" using p(3) that by linarith
    then show ?thesis using p(4) by simp
  qed
  have c: "createHighQualityLineArt pixels w h t 0 = binarize t pixels"
    by (simp add: createHighQualityLineArt_def)
  show ?thesis using c p lo hi by blast
qed

theorem binarize_threshold_witness:
  "pixelBytes (createHighQualityLineArt scenarioB 2 1 200 0) 2 (0, 0) = blackPixel
   \<and> pixelBytes (createHighQualityLineArt scenarioB 2 1 200 0) 2 (1, 0) = whitePixel"
proof -
  have l: "length scenarioB = 4 * 2 * 1" by (simp add: scenarioB_def)
  have q0: "inImage 2 1 (0, 0)" and q1: "inImage 2 1 (1, 0)" by (simp_all add: inImage_def)
  have p0: "pixelBytes scenarioB 2 (0, 0) = [Some 150, Some 150, Some 150, Some 255]"
    and p1: "pixelBytes scenarioB 2 (1, 0) = [Some 220, Some 220, Some 220, Some 255]"
    by (simp_all add: pixelBytes_def scenarioB_def rd_def)
  have l0: "luminance 150 150 150 < 200 - 1 / 2 ^ 43"
    and l1: "200 + 1 / 2 ^ 43 \<le> luminance 220 220 220"
    by (simp_all add: luminance_def)
  show ?thesis
    using binarize_threshold [OF l q0, of 200] binarize_threshold [OF l q1, of 200] l0 l1
    by (auto simp add: p0 p1)
qed

text \<open>
  C4. For a binary image and a radius \<open>r > 0\<close>, a pixel of the image is black after
  \<^verbatim>\<open>applyDilation\<close> iff some pixel of the image at an offset \<open>(dx, dy)\<close> with
  \<open>dx\<^sup>2 + dy\<^sup>2 \<le> r\<^sup>2\<close> was black before; it is then pure black, and pure white otherwise.
  The same holds for the dilation step of \<^verbatim>\<open>createHighQualityLineArt\<close>, applied to the
  binarized pixels. Visiting the pixels in any other order gives the same buffer.
\<close>

theorem dilation_disk:
  assumes "0 < r" and "length data = 4 * w * h" and "binaryImage data w h"
    and "inImage w h q" and "set scan = set (rowMajor w h)"
  shows "(blackAt (applyDilation data w h r) w q \<longleftrightarrow> nearBlack data w h r q)
       \<and> pixelBytes (applyDilation data w h r) w q
           = (if nearBlack data w h r q then blackPixel else whitePixel)
       \<and> pixelBytes (dilateScan False (rowMajor w h) data w h r) w q
           = (if nearBlack data w h r q then blackPixel else whitePixel)
       \<and> dilateScan True scan data w h r = applyDilation data w h r
       \<and> dilateScan False scan data w h r = dilateScan False (rowMajor w h) data w h r
       \<and> (length pixels = 4 * w * h \<longrightarrow>
            createHighQualityLineArt pixels w h t r = dilateScan False scan (binarize t pixels) w h r
          \<and> pixelBytes (createHighQualityLineArt pixels w h t r) w q
              = (if nearBlack (binarize t pixels) w h r q then blackPixel else whitePixel))"
proof -
  have r: "0 \<le> r" using assms(1) by simp
  note rm = set_rowMajor [of w h]
  have sc: "set scan = {q. inImage w h q}" using assms(5) rm by simp
  have 1: "blackAt (applyDilation data w h r) w q \<longleftrightarrow> nearBlack data w h r q"
    unfolding applyDilation_def by (rule blackAt_dilateScan [OF r rm assms(4) assms(2)])
  have 2: "pixelBytes (applyDilation data w h r) w q
           = (if nearBlack data w h r q then blackPixel else whitePixel)"
    unfolding applyDilation_def by (rule pixelBytes_dilateScan [OF r rm assms(4) assms(2) assms(3)])
  have 3: "pixelBytes (dilateScan False (rowMajor w h) data w h r) w q
           = (if nearBlack data w h r q then blackPixel else whitePixel)"
    by (rule pixelBytes_dilateScan [OF r rm assms(4) assms(2) assms(3)])
  have 4: "dilateScan True scan data w h r = applyDilation data w h r"
    unfolding applyDilation_def by (rule dilateScan_order [OF r sc rm])
  have 5: "dilateScan False scan d w h r = dilateScan False (rowMajor w h) d w h r" for d
    by (rule dilateScan_order [OF r sc rm])
  have 6: "createHighQualityLineArt pixels w h t r = dilateScan False scan (binarize t pixels) w h r"
    using assms(1) by (simp add: createHighQualityLineArt_def 5)
  have 7: "pixelBytes (createHighQualityLineArt pixels w h t r) w q
              = (if nearBlack (binarize t pixels) w h r q then blackPixel else whitePixel)"
    if "length pixels = 4 * w * h"
    unfolding 6 5
    by (rule pixelBytes_dilateScan [OF r rm assms(4) _ binaryImage_binarize [OF that]])
       (simp add: that)
  show ?thesis using 1 2 3 4 5 6 7 by blast
qed

theorem dilation_disk_witness:
  "nearBlack dilationTest 2 2 1 (1, 0) \<and> nearBlack dilationTest 2 2 1 (0, 1)
   \<and> \<not> nearBlack dilationTest 2 2 1 (1, 1)
   \<and> dilateScan True [(1, 1), (0, 1), (1, 0), (0, 0)] dilationTest 2 2 1
       = [0, 0, 0, 255, 0, 0, 0, 255, 0, 0, 0, 255, 255, 255, 255, 255]"
proof -
  have l: "length dilationTest = 4 * 2 * 2" by (simp add: dilationTest_def)
  have s: "set [(1, 1), (0, 1), (1, 0), (0, 0)] = set (rowMajor 2 2)"
    by (auto simp add: rowMajor_def upt_rec)
  have q: "inImage 2 2 (1, 0)" "inImage 2 2 (0, 1)" "inImage 2 2 (1, 1)"
    by (simp_all add: inImage_def)
  note t = dilation_disk [OF _ l binaryImage_dilationTest _ s, of 1]
  have b: "blackAt (applyDilation dilationTest 2 2 1) 2 (1, 0)"
    "blackAt (applyDilation dilationTest 2 2 1) 2 (0, 1)"
    "\<not> blackAt (applyDilation dilationTest 2 2 1) 2 (1, 1)"
    by (simp_all add: applyDilation_dilationTest blackAt_def rd_def)
  show ?thesis
    using t [OF _ q(1)] t [OF _ q(2)] t [OF _ q(3)] b
    by (simp add: applyDilation_dilationTest)
qed

end
